theory Spec2Isabelle
  imports Main "HOL-Library.Multiset" "HOL-Library.Word" "HOL-Library.Monad_Syntax"
begin

section \<open>Python values the templates rely on\<close>

text \<open>
  Exceptions the modelled statements can raise: \<open>del d[k]\<close> on a missing key,
  \<open>next(iter(...))\<close> on an empty iterator, and a method call on an object that lacks
  the method.
\<close>

datatype error = KeyError | StopIteration | AttributeError

text \<open>
  A Python \<open>dict\<close> keeps its keys in insertion order and holds each key once, so it
  is an association list; \<open>dict_set\<close> is \<open>d[k] = v\<close> (an existing key keeps its
  position), \<open>dict_del\<close> is \<open>del d[k]\<close>, \<open>dict_get\<close> is \<open>d.get(k)\<close>,
  \<open>first_key\<close> is \<open>next(iter(d.keys()))\<close>.
\<close>

type_synonym ('k, 'v) dict = "('k \<times> 'v) list"

fun dict_set :: "('k, 'v) dict \<Rightarrow> 'k \<Rightarrow> 'v \<Rightarrow> ('k, 'v) dict" where
  "dict_set [] k v = [(k, v)]"
| "dict_set ((k', v') # d) k v =
     (if k' = k then (k, v) # d else (k', v') # dict_set d k v)"

fun dict_del :: "('k, 'v) dict \<Rightarrow> 'k \<Rightarrow> error + ('k, 'v) dict" where
  "dict_del [] k = Inl KeyError"
| "dict_del ((k', v') # d) k =
     (if k' = k then Inr d
      else (case dict_del d k of Inl e \<Rightarrow> Inl e | Inr d' \<Rightarrow> Inr ((k', v') # d')))"

fun dict_get :: "('k, 'v) dict \<Rightarrow> 'k \<Rightarrow> 'v option" where
  "dict_get [] k = None"
| "dict_get ((k', v') # d) k = (if k' = k then Some v' else dict_get d k)"

fun first_key :: "('k, 'v) dict \<Rightarrow> error + 'k" where
  "first_key [] = Inl StopIteration"
| "first_key ((k, v) # d) = Inr k"

text \<open>The decimal text of a non-negative \<open>int\<close>, as an f-string prints it.\<close>

definition digit_char :: "nat \<Rightarrow> char" where
  "digit_char d = char_of (48 + d)"

fun str_of_nat :: "nat \<Rightarrow> string" where
  "str_of_nat n =
     (if n < 10 then [digit_char n] else str_of_nat (n div 10) @ [digit_char (n mod 10)])"

declare str_of_nat.simps [simp del]

text \<open>\<open>f"stage_{stage}"\<close>\<close>

definition stage_key :: "nat \<Rightarrow> string" where
  "stage_key stage = ''stage_'' @ str_of_nat stage"

section \<open>todo-management.py\<close>

text \<open>The dataclass \<open>Task\<close>; its field \<open>id\<close> is \<open>id_task\<close> here.\<close>

record Task =
  id_task :: string
  content :: string
  active_form :: string
  status :: string
  dependencies :: "string list"
  estimated_duration :: "int option"
  tags :: "string list"
  created_at :: string

text \<open>\<open>remaining_tasks = {task.id: task for task in tasks}\<close>\<close>

definition tasks_by_id :: "Task list \<Rightarrow> (string, Task) dict" where
  "tasks_by_id tasks = foldl (\<lambda>d task. dict_set d (id_task task) task) [] tasks"

text \<open>
  The \<open>for\<close> loop of \<open>identify_parallel_opportunities\<close> over the snapshot
  \<open>list(remaining_tasks.items())\<close>. Its state is \<open>current_stage\<close>,
  \<open>completed_tasks\<close> and \<open>remaining_tasks\<close>; \<open>completed_tasks\<close> grows inside the
  scan, so a later item of the same scan already sees the ids placed before it.
\<close>

fun scan_tasks ::
  "(string \<times> Task) list \<Rightarrow> string list \<times> string set \<times> (string, Task) dict
     \<Rightarrow> error + (string list \<times> string set \<times> (string, Task) dict)" where
  "scan_tasks [] st = Inr st"
| "scan_tasks ((task_id, task) # items) (current_stage, completed_tasks, remaining_tasks) =
     (if list_all (\<lambda>dep. dep \<in> completed_tasks) (dependencies task) then
        (case dict_del remaining_tasks task_id of
           Inl e \<Rightarrow> Inl e
         | Inr remaining_tasks' \<Rightarrow>
             scan_tasks items
               (current_stage @ [task_id], insert task_id completed_tasks, remaining_tasks'))
      else scan_tasks items (current_stage, completed_tasks, remaining_tasks))"

lemma dict_del_length: "dict_del d k = Inr d' \<Longrightarrow> Suc (length d') = length d"
  by (induction d arbitrary: d') (auto split: if_splits sum.splits)

lemma scan_tasks_length:
  "scan_tasks items (cs, c, r) = Inr (cs', c', r') \<Longrightarrow>
     length r' + length cs' = length r + length cs"
proof (induction items arbitrary: cs c r)
  case Nil
  then show ?case by simp
next
  case (Cons a items)
  obtain k t where a: "a = (k, t)" by (cases a)
  show ?case
  proof (cases "list_all (\<lambda>dep. dep \<in> c) (dependencies t)")
    case True
    with Cons.prems a obtain r1 where d: "dict_del r k = Inr r1"
      and s: "scan_tasks items (cs @ [k], insert k c, r1) = Inr (cs', c', r')"
      by (auto split: sum.splits)
    from Cons.IH [OF s] dict_del_length [OF d] show ?thesis by simp
  next
    case False
    with Cons.prems a have "scan_tasks items (cs, c, r) = Inr (cs', c', r')" by simp
    from Cons.IH [OF this] show ?thesis .
  qed
qed

text \<open>
  The \<open>while remaining_tasks:\<close> loop. Its state is \<open>parallel_groups\<close>,
  \<open>stage\<close>, \<open>remaining_tasks\<close> and \<open>completed_tasks\<close>.
\<close>

function while_remaining_tasks ::
  "(string, string list) dict \<times> nat \<times> (string, Task) dict \<times> string set
     \<Rightarrow> error + (string, string list) dict" where
  "while_remaining_tasks (parallel_groups, stage, remaining_tasks, completed_tasks) =
     (if remaining_tasks = [] then Inr parallel_groups
      else
        (case scan_tasks remaining_tasks ([], completed_tasks, remaining_tasks) of
           Inl e \<Rightarrow> Inl e
         | Inr (current_stage, completed_tasks', remaining_tasks') \<Rightarrow>
             if current_stage \<noteq> [] then
               while_remaining_tasks
                 (dict_set parallel_groups (stage_key stage) current_stage,
                  stage + 1, remaining_tasks', completed_tasks')
             else if remaining_tasks' \<noteq> [] then
               (case first_key remaining_tasks' of
                  Inl e \<Rightarrow> Inl e
                | Inr task_id \<Rightarrow>
                    (case dict_del remaining_tasks' task_id of
                       Inl e \<Rightarrow> Inl e
                     | Inr remaining_tasks'' \<Rightarrow>
                         while_remaining_tasks
                           (dict_set parallel_groups (stage_key stage) [task_id],
                            stage + 1, remaining_tasks'', insert task_id completed_tasks')))
             else
               while_remaining_tasks
                 (parallel_groups, stage, remaining_tasks', completed_tasks')))"
  by pat_completeness auto
termination
proof (relation "measure (\<lambda>(pg, stage, r, c). length r)", goal_cases)
  case 1
  show ?case by simp
next
  case (2 pg stage r c x2 cs x2a c' r')
  then show ?case using scan_tasks_length [of r "[]" c r cs c' r'] by (cases cs) auto
next
  case (3 pg stage r c x2 cs x2a c' r' k r'')
  then show ?case
    using scan_tasks_length [of r "[]" c r cs c' r'] dict_del_length [of r' k r''] by auto
next
  case (4 pg stage r c x2 cs x2a c' r')
  then show ?case by (cases r) auto
qed

declare while_remaining_tasks.simps [simp del]

definition identify_parallel_opportunities ::
  "Task list \<Rightarrow> error + (string, string list) dict" where
  "identify_parallel_opportunities tasks = while_remaining_tasks ([], 0, tasks_by_id tasks, {})"

section \<open>orchestrator.py\<close>

datatype AgentType =
    GENERAL_PURPOSE | CODEBASE_LOCATOR | CODEBASE_ANALYZER | RESEARCH_SYNTHESIZER
  | WEB_RESEARCH_SPECIALIST | PROBLEM_SOLVER | CONTEXT_MANAGER | PARALLEL_COORDINATOR
  | RESEARCH

datatype ExecutionStatus = PENDING | RUNNING | COMPLETED | FAILED | SKIPPED

text \<open>
  The dataclass \<open>AgentExecution\<close>. Fields whose names the \<open>Task\<close> record or HOL
  already use carry the suffix \<open>_exec\<close>; \<open>duration\<close> is a Python float, kept as
  the 64 bits of its IEEE-754 encoding. The method \<open>_calculate_parallel_groups\<close> is
  \<open>calculate_parallel_groups\<close> here.
\<close>

record AgentExecution =
  id_exec :: string
  agent_type :: AgentType
  description :: string
  prompt :: string
  status_exec :: ExecutionStatus
  start_time :: "string option"
  end_time :: "string option"
  duration :: "(64 word) option"
  result :: "string option"
  error_exec :: "string option"
  dependencies_exec :: "string list"

text \<open>\<open>remaining_executions = {exec.id: exec for exec in executions}\<close>\<close>

definition executions_by_id :: "AgentExecution list \<Rightarrow> (string, AgentExecution) dict" where
  "executions_by_id executions =
     foldl (\<lambda>d exec. dict_set d (id_exec exec) exec) [] executions"

text \<open>
  The \<open>for\<close> loop of \<open>_calculate_parallel_groups\<close> over
  \<open>list(remaining_executions.items())\<close>.
\<close>

fun scan_executions ::
  "(string \<times> AgentExecution) list
     \<Rightarrow> string list \<times> string set \<times> (string, AgentExecution) dict
     \<Rightarrow> error + (string list \<times> string set \<times> (string, AgentExecution) dict)" where
  "scan_executions [] st = Inr st"
| "scan_executions ((exec_id, execution) # items)
     (current_stage, completed_executions, remaining_executions) =
     (if list_all (\<lambda>dep. dep \<in> completed_executions) (dependencies_exec execution) then
        (case dict_del remaining_executions exec_id of
           Inl e \<Rightarrow> Inl e
         | Inr remaining_executions' \<Rightarrow>
             scan_executions items
               (current_stage @ [exec_id], insert exec_id completed_executions,
                remaining_executions'))
      else scan_executions items (current_stage, completed_executions, remaining_executions))"

lemma scan_executions_length:
  "scan_executions items (cs, c, r) = Inr (cs', c', r') \<Longrightarrow>
     length r' + length cs' = length r + length cs"
proof (induction items arbitrary: cs c r)
  case Nil
  then show ?case by simp
next
  case (Cons a items)
  obtain k x where a: "a = (k, x)" by (cases a)
  show ?case
  proof (cases "list_all (\<lambda>dep. dep \<in> c) (dependencies_exec x)")
    case True
    with Cons.prems a obtain r1 where d: "dict_del r k = Inr r1"
      and s: "scan_executions items (cs @ [k], insert k c, r1) = Inr (cs', c', r')"
      by (auto split: sum.splits)
    from Cons.IH [OF s] dict_del_length [OF d] show ?thesis by simp
  next
    case False
    with Cons.prems a have "scan_executions items (cs, c, r) = Inr (cs', c', r')" by simp
    from Cons.IH [OF this] show ?thesis .
  qed
qed

text \<open>The \<open>while remaining_executions:\<close> loop.\<close>

function while_remaining_executions ::
  "(string, string list) dict \<times> nat \<times> (string, AgentExecution) dict \<times> string set
     \<Rightarrow> error + (string, string list) dict" where
  "while_remaining_executions
     (parallel_groups, stage, remaining_executions, completed_executions) =
     (if remaining_executions = [] then Inr parallel_groups
      else
        (case scan_executions remaining_executions
                ([], completed_executions, remaining_executions) of
           Inl e \<Rightarrow> Inl e
         | Inr (current_stage, completed_executions', remaining_executions') \<Rightarrow>
             if current_stage \<noteq> [] then
               while_remaining_executions
                 (dict_set parallel_groups (stage_key stage) current_stage,
                  stage + 1, remaining_executions', completed_executions')
             else if remaining_executions' \<noteq> [] then
               (case first_key remaining_executions' of
                  Inl e \<Rightarrow> Inl e
                | Inr exec_id \<Rightarrow>
                    (case dict_del remaining_executions' exec_id of
                       Inl e \<Rightarrow> Inl e
                     | Inr remaining_executions'' \<Rightarrow>
                         while_remaining_executions
                           (dict_set parallel_groups (stage_key stage) [exec_id],
                            stage + 1, remaining_executions'',
                            insert exec_id completed_executions')))
             else
               while_remaining_executions
                 (parallel_groups, stage, remaining_executions', completed_executions')))"
  by pat_completeness auto
termination
proof (relation "measure (\<lambda>(pg, stage, r, c). length r)", goal_cases)
  case 1
  show ?case by simp
next
  case (2 pg stage r c x2 cs x2a c' r')
  then show ?case using scan_executions_length [of r "[]" c r cs c' r'] by (cases cs) auto
next
  case (3 pg stage r c x2 cs x2a c' r' k r'')
  then show ?case
    using scan_executions_length [of r "[]" c r cs c' r'] dict_del_length [of r' k r'']
    by auto
next
  case (4 pg stage r c x2 cs x2a c' r')
  then show ?case by (cases r) auto
qed

declare while_remaining_executions.simps [simp del]

definition calculate_parallel_groups ::
  "AgentExecution list \<Rightarrow> error + (string, string list) dict" where
  "calculate_parallel_groups executions =
     while_remaining_executions ([], 0, executions_by_id executions, {})"

section \<open>The persisted todo list\<close>

text \<open>
  What \<open>json.load\<close> returns: \<open>None\<close>, a \<open>bool\<close>, an \<open>int\<close>, a float (its 64
  bits), a \<open>str\<close>, a \<open>list\<close> or a \<open>dict\<close> with string keys.
\<close>

datatype pyval =
    PNone | PBool bool | PInt int | PFloat "64 word" | PStr string
  | PList "pyval list" | PDict "(string \<times> pyval) list"

text \<open>
  The body of \<open>if task.get("id") == task_id:\<close> in \<open>update_task_status\<close>, up to
  the \<open>break\<close>; the parameter \<open>status\<close> is \<open>new_status\<close> here. The two calls of \<open>datetime.now().isoformat()\<close> are the parameters
  \<open>updated_at\<close> and \<open>timestamp\<close>. \<open>task["log"].append(...)\<close> raises
  \<open>AttributeError\<close> when the stored value is not a list.
\<close>

definition update_matched_task ::
  "string \<Rightarrow> string \<Rightarrow> string \<Rightarrow> string \<Rightarrow> (string, pyval) dict
     \<Rightarrow> error + (string, pyval) dict" where
  "update_matched_task new_status log_entry updated_at timestamp task =
     (let task1 = dict_set task ''status'' (PStr new_status);
          task2 = dict_set task1 ''updated_at'' (PStr updated_at)
      in if log_entry \<noteq> [] then
           (let task3 = (if dict_get task2 ''log'' = None
                         then dict_set task2 ''log'' (PList []) else task2)
            in case dict_get task3 ''log'' of
                 None \<Rightarrow> Inl KeyError
               | Some (PList entries) \<Rightarrow>
                   Inr (dict_set task3 ''log''
                          (PList (entries @
                             [PDict [(''timestamp'', PStr timestamp),
                                     (''entry'', PStr log_entry)]])))
               | Some _ \<Rightarrow> Inl AttributeError)
         else Inr task2)"

text \<open>\<open>for task in todos: if task.get("id") == task_id: ...; break\<close>\<close>

fun update_todos ::
  "string \<Rightarrow> string \<Rightarrow> string \<Rightarrow> string \<Rightarrow> string \<Rightarrow> (string, pyval) dict list
     \<Rightarrow> error + (string, pyval) dict list" where
  "update_todos task_id new_status log_entry updated_at timestamp [] = Inr []"
| "update_todos task_id new_status log_entry updated_at timestamp (task # todos) =
     (if dict_get task ''id'' = Some (PStr task_id) then
        (case update_matched_task new_status log_entry updated_at timestamp task of
           Inl e \<Rightarrow> Inl e
         | Inr task' \<Rightarrow> Inr (task' # todos))
      else
        (case update_todos task_id new_status log_entry updated_at timestamp todos of
           Inl e \<Rightarrow> Inl e
         | Inr todos' \<Rightarrow> Inr (task # todos')))"

text \<open>
  \<open>todos.json\<close> is the list it holds, or \<open>None\<close> while the file does not exist;
  \<open>load_todos\<close> reads it and \<open>save_todos\<close> overwrites it.
\<close>

definition load_todos :: "(string, pyval) dict list option \<Rightarrow> (string, pyval) dict list" where
  "load_todos todos_file = (case todos_file of Some tasks \<Rightarrow> tasks | None \<Rightarrow> [])"

definition save_todos ::
  "(string, pyval) dict list \<Rightarrow> (string, pyval) dict list option" where
  "save_todos tasks = Some tasks"

definition update_task_status ::
  "(string, pyval) dict list option \<Rightarrow> string \<Rightarrow> string \<Rightarrow> string \<Rightarrow> string \<Rightarrow> string
     \<Rightarrow> error + (string, pyval) dict list option" where
  "update_task_status todos_file task_id new_status log_entry updated_at timestamp =
     (case update_todos task_id new_status log_entry updated_at timestamp
             (load_todos todos_file) of
        Inl e \<Rightarrow> Inl e
      | Inr todos \<Rightarrow> Inr (save_todos todos))"

section \<open>The partitioner on a heap of objects\<close>

text \<open>
  Both partitioners once more, with Python's objects made explicit, to tell what a call
  writes and where. The heap is the list of allocated objects, an address is an index into it, and a
  new object goes to the end. \<open>Item i d\<close> is a \<open>Task\<close> or an \<open>AgentExecution\<close>,
  reduced to the two attributes the partitioners read: its \<open>id\<close> and the address of its
  \<open>dependencies\<close> list. The argument is the address of an \<open>ItemList\<close>. A
  \<open>Dict\<close> maps keys to addresses: \<open>remaining_tasks\<close> holds references to the
  caller's items, \<open>parallel_groups\<close> references to the \<open>current_stage\<close> lists.
  \<open>None\<close> stands for a raised exception: an address that holds an object of another
  kind, \<open>del\<close> of a missing key, \<open>next\<close> on an empty iterator.
\<close>

type_synonym addr = nat

datatype pyobj =
    Item string addr
  | ItemList "addr list"
  | StrList "string list"
  | StrSet "string set"
  | Dict "(string, addr) dict"

type_synonym heap = "pyobj list"

definition get_item :: "heap \<Rightarrow> addr \<Rightarrow> (string \<times> addr) option" where
  "get_item h a =
     (if a < length h then (case h ! a of Item i deps \<Rightarrow> Some (i, deps) | _ \<Rightarrow> None) else None)"

definition get_items :: "heap \<Rightarrow> addr \<Rightarrow> addr list option" where
  "get_items h a =
     (if a < length h then (case h ! a of ItemList xs \<Rightarrow> Some xs | _ \<Rightarrow> None) else None)"

definition get_strs :: "heap \<Rightarrow> addr \<Rightarrow> string list option" where
  "get_strs h a =
     (if a < length h then (case h ! a of StrList xs \<Rightarrow> Some xs | _ \<Rightarrow> None) else None)"

definition get_set :: "heap \<Rightarrow> addr \<Rightarrow> string set option" where
  "get_set h a =
     (if a < length h then (case h ! a of StrSet s \<Rightarrow> Some s | _ \<Rightarrow> None) else None)"

definition get_dict :: "heap \<Rightarrow> addr \<Rightarrow> (string, addr) dict option" where
  "get_dict h a =
     (if a < length h then (case h ! a of Dict d \<Rightarrow> Some d | _ \<Rightarrow> None) else None)"

text \<open>
  \<open>xs.append(x)\<close>, \<open>s.add(x)\<close>, \<open>del d[k]\<close> and \<open>d[k] = v\<close> on the object at an
  address.
\<close>

definition list_append :: "heap \<Rightarrow> addr \<Rightarrow> string \<Rightarrow> heap option" where
  "list_append h a x = do { xs \<leftarrow> get_strs h a; Some (h[a := StrList (xs @ [x])]) }"

definition set_add :: "heap \<Rightarrow> addr \<Rightarrow> string \<Rightarrow> heap option" where
  "set_add h a x = do { s \<leftarrow> get_set h a; Some (h[a := StrSet (insert x s)]) }"

definition dict_delitem :: "heap \<Rightarrow> addr \<Rightarrow> string \<Rightarrow> heap option" where
  "dict_delitem h a k =
     do { d \<leftarrow> get_dict h a;
          (case dict_del d k of Inl e \<Rightarrow> None | Inr d' \<Rightarrow> Some (h[a := Dict d'])) }"

definition dict_setitem :: "heap \<Rightarrow> addr \<Rightarrow> string \<Rightarrow> addr \<Rightarrow> heap option" where
  "dict_setitem h a k v = do { d \<leftarrow> get_dict h a; Some (h[a := Dict (dict_set d k v)]) }"

text \<open>\<open>{item.id: item for item in items}\<close>\<close>

fun items_by_id ::
  "heap \<Rightarrow> addr list \<Rightarrow> (string, addr) dict \<Rightarrow> (string, addr) dict option" where
  "items_by_id h [] d = Some d"
| "items_by_id h (item # items) d =
     do { (item_id, deps) \<leftarrow> get_item h item; items_by_id h items (dict_set d item_id item) }"

text \<open>
  The \<open>for\<close> loop over the snapshot of \<open>remaining\<close>, given the addresses of
  \<open>current_stage\<close>, \<open>completed\<close> and \<open>remaining\<close>.
\<close>

fun scan_heap ::
  "(string \<times> addr) list \<Rightarrow> addr \<Rightarrow> addr \<Rightarrow> addr \<Rightarrow> heap \<Rightarrow> heap option" where
  "scan_heap [] current_stage completed remaining h = Some h"
| "scan_heap ((item_id, item) # snapshot) current_stage completed remaining h =
     do { (i, dependencies) \<leftarrow> get_item h item;
          deps \<leftarrow> get_strs h dependencies;
          seen \<leftarrow> get_set h completed;
          if list_all (\<lambda>dep. dep \<in> seen) deps then
            do { h1 \<leftarrow> list_append h current_stage item_id;
                 h2 \<leftarrow> set_add h1 completed item_id;
                 h3 \<leftarrow> dict_delitem h2 remaining item_id;
                 scan_heap snapshot current_stage completed remaining h3 }
          else scan_heap snapshot current_stage completed remaining h }"

lemma get_strs_update:
  "get_strs (h[a := obj]) b =
     (if b = a \<and> a < length h then (case obj of StrList xs \<Rightarrow> Some xs | _ \<Rightarrow> None)
      else get_strs h b)"
  by (auto simp: get_strs_def)

lemma get_dict_update:
  "get_dict (h[a := obj]) b =
     (if b = a \<and> a < length h then (case obj of Dict d \<Rightarrow> Some d | _ \<Rightarrow> None)
      else get_dict h b)"
  by (auto simp: get_dict_def)

lemma get_set_update:
  "get_set (h[a := obj]) b =
     (if b = a \<and> a < length h then (case obj of StrSet s \<Rightarrow> Some s | _ \<Rightarrow> None)
      else get_set h b)"
  by (auto simp: get_set_def)

lemma get_strs_SomeD: "get_strs h a = Some xs \<Longrightarrow> a < length h \<and> h ! a = StrList xs"
  by (auto simp: get_strs_def split: if_splits pyobj.splits)

lemma get_dict_SomeD: "get_dict h a = Some d \<Longrightarrow> a < length h \<and> h ! a = Dict d"
  by (auto simp: get_dict_def split: if_splits pyobj.splits)

lemma get_set_SomeD: "get_set h a = Some s \<Longrightarrow> a < length h \<and> h ! a = StrSet s"
  by (auto simp: get_set_def split: if_splits pyobj.splits)

lemma scan_heap_sizes:
  "scan_heap snapshot cs co rem h = Some h' \<Longrightarrow>
   get_dict h rem = Some d \<Longrightarrow> get_strs h cs = Some acc \<Longrightarrow>
     \<exists>d' acc'. get_dict h' rem = Some d' \<and> get_strs h' cs = Some acc'
        \<and> length d' + length acc' = length d + length acc"
proof (induction snapshot arbitrary: h d acc)
  case Nil
  then show ?case by simp
next
  case (Cons a snapshot)
  obtain k item where a: "a = (k, item)" by (cases a)
  from Cons.prems(1) a obtain i da deps c where
    r: "get_item h item = Some (i, da)" "get_strs h da = Some deps" "get_set h co = Some c"
    by (auto simp: bind_eq_Some_conv)
  show ?case
  proof (cases "list_all (\<lambda>dep. dep \<in> c) deps")
    case True
    with Cons.prems(1) a r obtain h1 h2 h3 where
      s: "list_append h cs k = Some h1" "set_add h1 co k = Some h2"
        "dict_delitem h2 rem k = Some h3" "scan_heap snapshot cs co rem h3 = Some h'"
      by (auto simp: bind_eq_Some_conv)
    from Cons.prems(2,3) have ne: "cs \<noteq> rem"
      by (auto dest!: get_dict_SomeD get_strs_SomeD)
    from s(1) Cons.prems(3) have h1: "h1 = h[cs := StrList (acc @ [k])]"
      by (simp add: list_append_def)
    from Cons.prems(3) have csl: "cs < length h" by (auto dest: get_strs_SomeD)
    have g1: "get_strs h1 cs = Some (acc @ [k])" "get_dict h1 rem = Some d"
      using ne csl Cons.prems(2) by (simp_all add: h1 get_strs_update get_dict_update)
    from s(2) obtain c1 where c1: "get_set h1 co = Some c1" "h2 = h1[co := StrSet (insert k c1)]"
      by (auto simp: set_add_def bind_eq_Some_conv)
    from c1(1) g1 have ne2: "co \<noteq> cs" "co \<noteq> rem"
      by (auto dest!: get_set_SomeD get_strs_SomeD get_dict_SomeD)
    have g2: "get_strs h2 cs = Some (acc @ [k])" "get_dict h2 rem = Some d"
      using ne2 g1 by (simp_all add: c1(2) get_strs_update get_dict_update)
    from s(3) g2(2) obtain d3 where d3: "dict_del d k = Inr d3" "h3 = h2[rem := Dict d3]"
      by (auto simp: dict_delitem_def split: sum.splits)
    from g2(2) have rl: "rem < length h2" by (auto dest: get_dict_SomeD)
    have g3: "get_strs h3 cs = Some (acc @ [k])" "get_dict h3 rem = Some d3"
      using ne g2 rl by (simp_all add: d3(2) get_strs_update get_dict_update)
    from Cons.IH [OF s(4) g3(2) g3(1)] dict_del_length [OF d3(1)] show ?thesis by auto
  next
    case False
    with Cons.prems(1) a r have "scan_heap snapshot cs co rem h = Some h'"
      by (simp)
    from Cons.IH [OF this Cons.prems(2,3)] show ?thesis .
  qed
qed

definition first_key_heap :: "(string, addr) dict \<Rightarrow> string option" where
  "first_key_heap d = (case first_key d of Inl e \<Rightarrow> None | Inr k \<Rightarrow> Some k)"

lemma dict_setitem_other:
  "dict_setitem h a k v = Some h' \<Longrightarrow> b \<noteq> a \<Longrightarrow> get_dict h' b = get_dict h b"
  by (auto simp: dict_setitem_def bind_eq_Some_conv get_dict_update)

lemma dict_not_strs: "get_dict h a = Some d \<Longrightarrow> get_strs h a \<noteq> Some xs"
  by (auto simp: get_dict_def get_strs_def split: if_splits pyobj.splits)

lemma dict_not_set: "get_dict h a = Some d \<Longrightarrow> get_set h a \<noteq> Some s"
  by (auto simp: get_dict_def get_set_def split: if_splits pyobj.splits)

lemma list_append_dict:
  assumes "list_append h a x = Some h'" and "get_dict h b = Some d"
  shows "get_dict h' b = Some d"
proof -
  from assms(1) obtain xs where xs: "get_strs h a = Some xs" "h' = h[a := StrList (xs @ [x])]"
    by (auto simp: list_append_def bind_eq_Some_conv)
  from xs(1) assms(2) have "b \<noteq> a" using dict_not_strs by blast
  with assms(2) show ?thesis by (simp add: xs(2) get_dict_update)
qed

lemma set_add_dict:
  assumes "set_add h a x = Some h'" and "get_dict h b = Some d"
  shows "get_dict h' b = Some d"
proof -
  from assms(1) obtain s where s: "get_set h a = Some s" "h' = h[a := StrSet (insert x s)]"
    by (auto simp: set_add_def bind_eq_Some_conv)
  from s(1) assms(2) have "b \<noteq> a" using dict_not_set by blast
  with assms(2) show ?thesis by (simp add: s(2) get_dict_update)
qed

lemma dict_delitem_dict:
  "dict_delitem h a k = Some h' \<Longrightarrow> get_dict h a = Some d \<Longrightarrow>
     \<exists>d'. get_dict h' a = Some d' \<and> Suc (length d') = length d"
  by (auto simp: dict_delitem_def get_dict_update split: sum.splits
      dest: dict_del_length get_dict_SomeD)

text \<open>
  The \<open>while\<close> loop. \<open>parallel_groups\<close>, \<open>remaining\<close> and \<open>completed\<close> were
  allocated one after the other, so the last two lie at \<open>parallel_groups + 1\<close> and
  \<open>parallel_groups + 2\<close>; \<open>current_stage = []\<close> allocates at \<open>length h\<close>.
\<close>

function while_remaining_heap :: "addr \<Rightarrow> nat \<Rightarrow> heap \<Rightarrow> heap option" where
  "while_remaining_heap parallel_groups stage h =
     do { remaining \<leftarrow> get_dict h (parallel_groups + 1);
          if remaining = [] then Some h
          else
            do { h2 \<leftarrow> scan_heap remaining (length h) (parallel_groups + 2) (parallel_groups + 1)
                       (h @ [StrList []]);
                 current_stage \<leftarrow> get_strs h2 (length h);
                 if current_stage \<noteq> [] then
                   do { h3 \<leftarrow> dict_setitem h2 parallel_groups (stage_key stage) (length h);
                        while_remaining_heap parallel_groups (stage + 1) h3 }
                 else
                   do { remaining' \<leftarrow> get_dict h2 (parallel_groups + 1);
                        if remaining' \<noteq> [] then
                          do { item_id \<leftarrow> first_key_heap remaining';
                               h3 \<leftarrow> list_append h2 (length h) item_id;
                               h4 \<leftarrow> set_add h3 (parallel_groups + 2) item_id;
                               h5 \<leftarrow> dict_delitem h4 (parallel_groups + 1) item_id;
                               h6 \<leftarrow> dict_setitem h5 parallel_groups (stage_key stage) (length h);
                               while_remaining_heap parallel_groups (stage + 1) h6 }
                        else while_remaining_heap parallel_groups stage h2 } } }"
  by pat_completeness auto
termination
proof (relation "measure (\<lambda>(pg, stage, h).
    case get_dict h (pg + 1) of Some d \<Rightarrow> length d | None \<Rightarrow> 0)", goal_cases)
  case 1
  show ?case by simp
next
  case (2 pg stage h remaining h2 current_stage h3)
  from 2(1) have rl: "pg + 1 < length h" by (auto dest: get_dict_SomeD)
  have g: "get_dict (h @ [StrList []]) (pg + 1) = Some remaining"
    "get_strs (h @ [StrList []]) (length h) = Some []"
    using 2(1) rl by (simp_all add: get_dict_def get_strs_def nth_append)
  from scan_heap_sizes [OF 2(3) g] 2(4) obtain d' where
    d': "get_dict h2 (pg + 1) = Some d'" "length d' + length current_stage = length remaining"
    by auto
  from dict_setitem_other [OF 2(6), of "pg + 1"] d' have "get_dict h3 (pg + 1) = Some d'" by simp
  with d' 2(1,5) show ?case by (cases current_stage) simp_all
next
  case (3 pg stage h remaining h2 current_stage remaining' item_id h3 h4 h5 h6)
  from 3(1) have rl: "pg + 1 < length h" by (auto dest: get_dict_SomeD)
  have g: "get_dict (h @ [StrList []]) (pg + 1) = Some remaining"
    "get_strs (h @ [StrList []]) (length h) = Some []"
    using 3(1) rl by (simp_all add: get_dict_def get_strs_def nth_append)
  from scan_heap_sizes [OF 3(3) g] 3(4,6) have le: "length remaining' \<le> length remaining"
    by auto
  from list_append_dict [OF 3(9) 3(6)] have "get_dict h3 (pg + 1) = Some remaining'" .
  from set_add_dict [OF 3(10) this] have "get_dict h4 (pg + 1) = Some remaining'" .
  from dict_delitem_dict [OF 3(11) this] obtain d5 where
    d5: "get_dict h5 (pg + 1) = Some d5" "Suc (length d5) = length remaining'" by blast
  from dict_setitem_other [OF 3(12), of "pg + 1"] d5 have "get_dict h6 (pg + 1) = Some d5" by simp
  with d5 le 3(1) show ?case by simp
next
  case (4 pg stage h remaining h2 current_stage remaining')
  then show ?case by (cases remaining) simp_all
qed

declare while_remaining_heap.simps [simp del]

text \<open>The whole call: the heap after it and the address of the mapping it returns.\<close>

definition partition_heap :: "heap \<Rightarrow> addr \<Rightarrow> (heap \<times> addr) option" where
  "partition_heap h items =
     do { let parallel_groups = length h;
          let h1 = h @ [Dict []];
          item_list \<leftarrow> get_items h1 items;
          by_id \<leftarrow> items_by_id h1 item_list [];
          let h2 = h1 @ [Dict by_id];
          let h3 = h2 @ [StrSet {}];
          h4 \<leftarrow> while_remaining_heap parallel_groups 0 h3;
          Some (h4, parallel_groups) }"

text \<open>What a heap holds: the items behind the argument, and the mapping behind a result.\<close>

definition item_value :: "heap \<Rightarrow> addr \<Rightarrow> (string \<times> string list) option" where
  "item_value h a =
     do { (i, dependencies) \<leftarrow> get_item h a;
          deps \<leftarrow> get_strs h dependencies;
          Some (i, deps) }"

definition items_value :: "heap \<Rightarrow> addr \<Rightarrow> (string \<times> string list) list option" where
  "items_value h items =
     do { item_list \<leftarrow> get_items h items; those (map (item_value h) item_list) }"

definition groups_at :: "heap \<Rightarrow> addr \<Rightarrow> (string, string list) dict option" where
  "groups_at h parallel_groups =
     do { d \<leftarrow> get_dict h parallel_groups;
          those (map (\<lambda>(k, a). map_option (Pair k) (get_strs h a)) d) }"

section \<open>Inputs the templates build themselves\<close>

text \<open>
  The task list \<open>generate_execution_plan\<close> creates for an authentication problem
  (\<open>created_at\<close> is the clock's reading, here a fixed one), and the executions of the
  example at the end of \<open>orchestrator.py\<close> as \<open>create_execution_plan\<close> builds them
  (descriptions and prompts left out).
\<close>

definition auth_tasks :: "Task list" where
  "auth_tasks =
     [\<lparr>id_task = ''auth-1'', content = ''Design user authentication model'',
       active_form = ''Designing user authentication model'', status = ''pending'',
       dependencies = [], estimated_duration = None, tags = [''architecture'', ''auth''],
       created_at = ''2024-01-01T00:00:00''\<rparr>,
      \<lparr>id_task = ''auth-2'', content = ''Implement JWT token handling'',
       active_form = ''Implementing JWT token handling'', status = ''pending'',
       dependencies = [], estimated_duration = None, tags = [''implementation'', ''auth''],
       created_at = ''2024-01-01T00:00:00''\<rparr>,
      \<lparr>id_task = ''auth-3'', content = ''Create login/logout endpoints'',
       active_form = ''Creating login/logout endpoints'', status = ''pending'',
       dependencies = [], estimated_duration = None, tags = [''api'', ''auth''],
       created_at = ''2024-01-01T00:00:00''\<rparr>,
      \<lparr>id_task = ''auth-4'', content = ''Add authentication middleware'',
       active_form = ''Adding authentication middleware'', status = ''pending'',
       dependencies = [], estimated_duration = None, tags = [''middleware'', ''auth''],
       created_at = ''2024-01-01T00:00:00''\<rparr>,
      \<lparr>id_task = ''auth-5'', content = ''Write authentication tests'',
       active_form = ''Writing authentication tests'', status = ''pending'',
       dependencies = [''auth-1'', ''auth-2'', ''auth-3''], estimated_duration = None,
       tags = [''testing'', ''auth''], created_at = ''2024-01-01T00:00:00''\<rparr>]"

definition new_execution :: "string \<Rightarrow> AgentType \<Rightarrow> string list \<Rightarrow> AgentExecution" where
  "new_execution i a deps =
     \<lparr>id_exec = i, agent_type = a, description = [], prompt = [],
      status_exec = PENDING, start_time = None, end_time = None, duration = None,
      result = None, error_exec = None, dependencies_exec = deps\<rparr>"

definition example_executions :: "AgentExecution list" where
  "example_executions =
     [new_execution ''locate-auth'' CODEBASE_LOCATOR [],
      new_execution ''analyze-auth'' CODEBASE_ANALYZER [''locate-auth''],
      new_execution ''research-jwt'' WEB_RESEARCH_SPECIALIST [],
      new_execution ''synthesize'' RESEARCH_SYNTHESIZER [''analyze-auth'', ''research-jwt'']]"

text \<open>A task with the defaults of the dataclass, for the small inputs below.\<close>

definition new_task :: "string \<Rightarrow> string list \<Rightarrow> Task" where
  "new_task i deps =
     \<lparr>id_task = i, content = [], active_form = [], status = ''pending'', dependencies = deps,
      estimated_duration = None, tags = [], created_at = ''2024-01-01T00:00:00''\<rparr>"

text \<open>A persisted todo list in which two records share an id.\<close>

definition example_todos :: "(string, pyval) dict list" where
  "example_todos =
     [[(''id'', PStr ''auth-1''), (''content'', PStr ''Design user authentication model''),
       (''status'', PStr ''pending''), (''dependencies'', PList [])],
      [(''id'', PStr ''auth-5''), (''content'', PStr ''Write authentication tests''),
       (''status'', PStr ''pending''),
       (''dependencies'', PList [PStr ''auth-1'', PStr ''auth-2'', PStr ''auth-3''])],
      [(''id'', PStr ''auth-5''), (''content'', PStr ''a second record with this id''),
       (''status'', PStr ''pending'')]]"

text \<open>
  Two heaps that hold the items \<open>a\<close>, \<open>b\<close> (after \<open>a\<close>), \<open>c\<close> (after \<open>a\<close>) and
  \<open>d\<close> (after \<open>b\<close> and \<open>c\<close>) at different addresses; in the first, \<open>b\<close> and
  \<open>c\<close> share one dependencies list.
\<close>

definition diamond_heap :: heap where
  "diamond_heap =
     [StrList [], Item ''a'' 0, StrList [''a''], Item ''b'' 2, Item ''c'' 2,
      StrList [''b'', ''c''], Item ''d'' 5, ItemList [1, 3, 4, 6]]"

definition diamond_heap' :: heap where
  "diamond_heap' =
     [ItemList [2, 4, 6, 8], StrList [], Item ''a'' 1, StrList [''a''], Item ''b'' 3,
      StrList [''a''], Item ''c'' 5, StrList [''b'', ''c''], Item ''d'' 7]"

section \<open>Notions used in the proofs\<close>

text \<open>
  The ids one scan places, in order, from the dependency lists alone: the error-free
  reading of the \<open>for\<close> loop. \<open>task_deps\<close> and \<open>exec_deps\<close> are what the loops
  read of a dictionary of items; \<open>labelled\<close> is a sequence of stages under the keys
  \<open>stage_k\<close>, \<open>stage_(k+1)\<close>, ...
\<close>

fun ready_ids :: "(string \<times> string list) list \<Rightarrow> string set \<Rightarrow> string list" where
  "ready_ids [] c = []"
| "ready_ids ((k, deps) # items) c =
     (if list_all (\<lambda>dep. dep \<in> c) deps then k # ready_ids items (insert k c)
      else ready_ids items c)"

definition task_deps :: "(string, Task) dict \<Rightarrow> (string \<times> string list) list" where
  "task_deps r = map (\<lambda>(k, t). (k, dependencies t)) r"

definition exec_deps :: "(string, AgentExecution) dict \<Rightarrow> (string \<times> string list) list" where
  "exec_deps r = map (\<lambda>(k, x). (k, dependencies_exec x)) r"

definition labelled :: "nat \<Rightarrow> string list list \<Rightarrow> (string, string list) dict" where
  "labelled stage stages = zip (map stage_key [stage..<stage + length stages]) stages"

text \<open>
  A sequence of stages that follows the loop from dependency lists \<open>V\<close> and completed ids
  \<open>c\<close>: each stage is what a scan places or, when a scan places nothing, the first remaining
  id alone, until nothing remains.
\<close>

fun stages_follow ::
  "string list list \<Rightarrow> (string \<times> string list) list \<Rightarrow> string set \<Rightarrow> bool" where
  "stages_follow [] V c \<longleftrightarrow> V = []"
| "stages_follow (s # stages) V c \<longleftrightarrow>
     V \<noteq> [] \<and> s = (if ready_ids V c \<noteq> [] then ready_ids V c else [fst (hd V)])
     \<and> stages_follow stages (filter (\<lambda>kv. fst kv \<notin> set s) V) (c \<union> set s)"

text \<open>
  The dependency lists behind a dictionary of item addresses, and heaps that agree
  outside a set of addresses.
\<close>

definition deps_view ::
  "heap \<Rightarrow> (string, addr) dict \<Rightarrow> (string \<times> string list) list option" where
  "deps_view h d = those (map (\<lambda>(k, a). map_option (\<lambda>v. (k, snd v)) (item_value h a)) d)"

definition same_except :: "addr set \<Rightarrow> heap \<Rightarrow> heap \<Rightarrow> bool" where
  "same_except W h h' \<longleftrightarrow> length h' = length h \<and> (\<forall>b. b \<notin> W \<longrightarrow> h' ! b = h ! b)"

section \<open>Dictionaries and stage keys\<close>

lemma digit_char_values:
  "digit_char 0 = CHR ''0''" "digit_char 1 = CHR ''1''" "digit_char 2 = CHR ''2''"
  "digit_char 3 = CHR ''3''" "digit_char 4 = CHR ''4''" "digit_char 5 = CHR ''5''"
  "digit_char 6 = CHR ''6''" "digit_char 7 = CHR ''7''" "digit_char 8 = CHR ''8''"
  "digit_char 9 = CHR ''9''"
  by (code_simp)+

lemma digit_char_inj: "a < 10 \<Longrightarrow> b < 10 \<Longrightarrow> digit_char a = digit_char b \<Longrightarrow> a = b"
  by (simp add: digit_char_def char_of_eq_iff take_bit_eq_mod)

lemma str_of_nat_nonempty: "str_of_nat n \<noteq> []"
  by (subst str_of_nat.simps) simp

lemma str_of_nat_inj: "str_of_nat n = str_of_nat m \<Longrightarrow> n = m"
proof (induction n arbitrary: m rule: str_of_nat.induct)
  case (1 n)
  show ?case
  proof (cases "n < 10")
    case n: True
    show ?thesis
    proof (cases "m < 10")
      case True
      with n "1.prems" show ?thesis
        by (subst (asm) str_of_nat.simps, subst (asm) (2) str_of_nat.simps)
           (simp add: digit_char_inj)
    next
      case False
      with n "1.prems" show ?thesis
        using str_of_nat_nonempty [of "m div 10"]
        by (subst (asm) str_of_nat.simps, subst (asm) (2) str_of_nat.simps) simp
    qed
  next
    case n: False
    show ?thesis
    proof (cases "m < 10")
      case True
      with n "1.prems" show ?thesis
        using str_of_nat_nonempty [of "n div 10"]
        by (subst (asm) str_of_nat.simps, subst (asm) (2) str_of_nat.simps) simp
    next
      case False
      from n False "1.prems"
      have e: "str_of_nat (n div 10) = str_of_nat (m div 10)"
        and d: "digit_char (n mod 10) = digit_char (m mod 10)"
        by (subst (asm) str_of_nat.simps, subst (asm) (2) str_of_nat.simps, simp)+
      from "1.IH" [OF n e] have "n div 10 = m div 10" .
      moreover from d have "n mod 10 = m mod 10" by (intro digit_char_inj) simp_all
      ultimately show ?thesis by (metis div_mult_mod_eq)
    qed
  qed
qed

lemma stage_key_inj: "stage_key n = stage_key m \<Longrightarrow> n = m"
  by (simp add: stage_key_def str_of_nat_inj)

lemma dict_set_fresh: "k \<notin> fst ` set d \<Longrightarrow> dict_set d k v = d @ [(k, v)]"
  by (induction d) auto

lemma in_keys: "(k, v) \<in> set d \<Longrightarrow> k \<in> fst ` set d"
  by force

lemma dict_set_keys:
  "map fst (dict_set d k v) = (if k \<in> fst ` set d then map fst d else map fst d @ [k])"
  by (induction d) (auto dest: in_keys)

lemma dict_set_distinct: "distinct (map fst d) \<Longrightarrow> distinct (map fst (dict_set d k v))"
  by (simp add: dict_set_keys)

lemma dict_get_set: "dict_get (dict_set d k v) k' = (if k' = k then Some v else dict_get d k')"
  by (induction d) auto

lemma dict_del_present:
  "distinct (map fst d) \<Longrightarrow> k \<in> fst ` set d \<Longrightarrow>
     dict_del d k = Inr (filter (\<lambda>kv. fst kv \<noteq> k) d)"
proof (induction d)
  case Nil
  then show ?case by simp
next
  case (Cons a d)
  show ?case
  proof (cases "fst a = k")
    case True
    with Cons.prems have "filter (\<lambda>kv. fst kv \<noteq> k) d = d"
      by (auto simp: filter_id_conv dest: in_keys)
    with True show ?thesis by (cases a) simp
  next
    case False
    with Cons show ?thesis by (cases a) auto
  qed
qed

lemma task_deps_Cons: "task_deps ((k, t) # items) = (k, dependencies t) # task_deps items"
  by (simp add: task_deps_def)

lemma task_deps_Nil: "task_deps [] = []"
  by (simp add: task_deps_def)

lemma keys_filter_neq:
  "k \<notin> A \<Longrightarrow> A \<subseteq> fst ` set r \<Longrightarrow> A \<subseteq> fst ` set (filter (\<lambda>kv. fst kv \<noteq> k) r)"
proof
  fix x assume a: "k \<notin> A" "A \<subseteq> fst ` set r" "x \<in> A"
  then obtain kv where "kv \<in> set r" "fst kv = x" by blast
  moreover from a have "x \<noteq> k" by blast
  ultimately show "x \<in> fst ` set (filter (\<lambda>kv. fst kv \<noteq> k) r)" by force
qed

lemma scan_tasks_eq:
  "distinct (map fst items) \<Longrightarrow> distinct (map fst r) \<Longrightarrow> fst ` set items \<subseteq> fst ` set r \<Longrightarrow>
     scan_tasks items (cs, c, r) =
       Inr (cs @ ready_ids (task_deps items) c, c \<union> set (ready_ids (task_deps items) c),
            filter (\<lambda>kv. fst kv \<notin> set (ready_ids (task_deps items) c)) r)"
proof (induction items arbitrary: cs c r)
  case Nil
  then show ?case by (simp add: task_deps_Nil)
next
  case (Cons a items)
  obtain k t where a: "a = (k, t)" by (cases a)
  from Cons.prems(1) a have di: "distinct (map fst items)" and k: "k \<notin> fst ` set items"
    by simp_all
  show ?case
  proof (cases "list_all (\<lambda>dep. dep \<in> c) (dependencies t)")
    case True
    let ?r1 = "filter (\<lambda>kv. fst kv \<noteq> k) r"
    let ?p = "ready_ids (task_deps items) (insert k c)"
    from Cons.prems(3) a have "k \<in> fst ` set r" by simp
    with Cons.prems(2) have d: "dict_del r k = Inr ?r1"
      by (rule dict_del_present)
    have d1: "distinct (map fst ?r1)" using Cons.prems(2) by (rule distinct_map_filter)
    have "fst ` set items \<subseteq> fst ` set r" using Cons.prems(3) by simp
    with k have s1: "fst ` set items \<subseteq> fst ` set ?r1" by (rule keys_filter_neq)
    have "scan_tasks items (cs @ [k], insert k c, ?r1) =
       Inr ((cs @ [k]) @ ?p, insert k c \<union> set ?p, filter (\<lambda>kv. fst kv \<notin> set ?p) ?r1)"
      using di d1 s1 by (rule Cons.IH)
    moreover have "ready_ids (task_deps (a # items)) c = k # ?p"
      using True a by (simp add: task_deps_Cons)
    ultimately show ?thesis using True a d by simp
  next
    case False
    have "fst ` set items \<subseteq> fst ` set r" using Cons.prems(3) by simp
    with di Cons.prems(2) have "scan_tasks items (cs, c, r) =
       Inr (cs @ ready_ids (task_deps items) c, c \<union> set (ready_ids (task_deps items) c),
            filter (\<lambda>kv. fst kv \<notin> set (ready_ids (task_deps items) c)) r)"
      by (rule Cons.IH)
    moreover have "ready_ids (task_deps (a # items)) c = ready_ids (task_deps items) c"
      using False a by (simp add: task_deps_Cons)
    ultimately show ?thesis using False a by simp
  qed
qed

lemma while_remaining_tasks_step:
  assumes "distinct (map fst r)" and "r \<noteq> []"
  shows "while_remaining_tasks (pg, stage, r, c) =
     (if ready_ids (task_deps r) c \<noteq> [] then
        while_remaining_tasks
          (dict_set pg (stage_key stage) (ready_ids (task_deps r) c), Suc stage,
           filter (\<lambda>kv. fst kv \<notin> set (ready_ids (task_deps r) c)) r,
           c \<union> set (ready_ids (task_deps r) c))
      else
        while_remaining_tasks
          (dict_set pg (stage_key stage) [fst (hd r)], Suc stage, tl r, insert (fst (hd r)) c))"
proof -
  have s: "scan_tasks r ([], c, r) =
       Inr (ready_ids (task_deps r) c, c \<union> set (ready_ids (task_deps r) c),
            filter (\<lambda>kv. fst kv \<notin> set (ready_ids (task_deps r) c)) r)"
    using scan_tasks_eq [of r r "[]" c] assms(1) by simp
  obtain k t r0 where r: "r = (k, t) # r0" using assms(2) by (cases r) auto
  show ?thesis
  proof (cases "ready_ids (task_deps r) c = []")
    case True
    with s have s': "scan_tasks r ([], c, r) = Inr ([], c, r)" by simp
    show ?thesis
      by (subst while_remaining_tasks.simps) (simp add: s' True assms(2), simp add: r)
  next
    case False
    show ?thesis
      by (subst while_remaining_tasks.simps) (simp add: s False assms(2))
  qed
qed

lemma ready_ids_subset: "set (ready_ids items c) \<subseteq> fst ` set items"
  by (induction items c rule: ready_ids.induct) auto

lemma ready_ids_distinct: "distinct (map fst items) \<Longrightarrow> distinct (ready_ids items c)"
proof (induction items c rule: ready_ids.induct)
  case (1 c)
  show ?case by simp
next
  case (2 k deps items c)
  have "k \<notin> set (ready_ids items (insert k c))"
    using ready_ids_subset [of items "insert k c"] "2.prems" by auto
  with 2 show ?case by simp
qed

lemma task_deps_keys: "map fst (task_deps r) = map fst r"
  by (simp add: task_deps_def case_prod_unfold)

lemma task_deps_filter:
  "task_deps (filter (\<lambda>kv. P (fst kv)) r) = filter (\<lambda>kv. P (fst kv)) (task_deps r)"
  by (induction r) (auto simp: task_deps_def)

lemma keys_filter: "map fst (filter (\<lambda>kv. P (fst kv)) r) = filter P (map fst r)"
  by (induction r) auto

lemma mset_split_placed:
  assumes "distinct xs" and "distinct p" and "set p \<subseteq> set xs"
  shows "mset p + mset (filter (\<lambda>x. x \<notin> set p) xs) = mset xs"
proof -
  have s: "set (filter (\<lambda>x. x \<in> set p) xs) = set p" using assms(3) by auto
  have d: "distinct (filter (\<lambda>x. x \<in> set p) xs)" using assms(1) by simp
  have "mset (filter (\<lambda>x. x \<in> set p) xs) = mset p"
    using set_eq_iff_mset_eq_distinct [OF d assms(2)] s by blast
  moreover have "mset (filter (\<lambda>x. x \<in> set p) xs) + mset (filter (\<lambda>x. x \<notin> set p) xs) = mset xs"
    by (induction xs) auto
  ultimately show ?thesis by (simp only:)
qed

lemma labelled_Nil: "labelled stage [] = []"
  by (simp add: labelled_def)

lemma labelled_Cons: "labelled stage (s # stages) = (stage_key stage, s) # labelled (Suc stage) stages"
proof -
  have "[stage..<stage + length (s # stages)] = stage # [Suc stage..<Suc stage + length stages]"
    by (simp add: upt_conv_Cons del: upt_Suc)
  then show ?thesis by (simp only: labelled_def list.map zip_Cons_Cons)
qed

lemma labelled_length: "length (labelled stage stages) = length stages"
  by (simp add: labelled_def)

lemma labelled_values: "map snd (labelled stage stages) = stages"
  by (simp add: labelled_def)

lemma labelled_keys: "map fst (labelled stage stages) = map stage_key [stage..<stage + length stages]"
  by (simp add: labelled_def)

lemma dict_set_next_stage:
  assumes "fst ` set pg \<subseteq> stage_key ` {..<stage}"
  shows "dict_set pg (stage_key stage) s = pg @ [(stage_key stage, s)]"
    and "fst ` set (dict_set pg (stage_key stage) s) \<subseteq> stage_key ` {..<Suc stage}"
proof -
  have "stage_key stage \<notin> fst ` set pg"
  proof
    assume "stage_key stage \<in> fst ` set pg"
    with assms obtain i where "i < stage" "stage_key stage = stage_key i" by auto
    then show False using stage_key_inj by blast
  qed
  then show e: "dict_set pg (stage_key stage) s = pg @ [(stage_key stage, s)]"
    by (rule dict_set_fresh)
  show "fst ` set (dict_set pg (stage_key stage) s) \<subseteq> stage_key ` {..<Suc stage}"
    using assms unfolding e by (auto simp: less_Suc_eq)
qed

lemma while_remaining_tasks_result:
  "distinct (map fst r) \<Longrightarrow> fst ` set pg \<subseteq> stage_key ` {..<stage} \<Longrightarrow>
     \<exists>stages. while_remaining_tasks (pg, stage, r, c) = Inr (pg @ labelled stage stages)
        \<and> [] \<notin> set stages \<and> mset (concat stages) = mset (map fst r)"
proof (induction "length r" arbitrary: r pg stage c rule: less_induct)
  case less
  show ?case
  proof (cases "r = []")
    case True
    have "while_remaining_tasks (pg, stage, r, c) = Inr (pg @ labelled stage [])"
      by (subst while_remaining_tasks.simps) (simp add: True labelled_Nil)
    then show ?thesis using True by (intro exI [of _ "[]"]) simp
  next
    case False
    let ?p = "ready_ids (task_deps r) c"
    have sub: "set ?p \<subseteq> set (map fst r)"
      using ready_ids_subset [of "task_deps r" c] task_deps_keys [of r]
      by (metis list.set_map)
    have dp: "distinct ?p"
      using less.prems(1) by (intro ready_ids_distinct) (simp add: task_deps_keys)
    obtain s r' c' where
      step: "while_remaining_tasks (pg, stage, r, c) =
               while_remaining_tasks (dict_set pg (stage_key stage) s, Suc stage, r', c')"
      and s: "s \<noteq> []" and m: "mset s + mset (map fst r') = mset (map fst r)"
      and d': "distinct (map fst r')"
    proof (cases "?p = []")
      case True
      obtain kv r0 where r: "r = kv # r0" using False by (cases r) auto
      show ?thesis
      proof (rule that)
        show "while_remaining_tasks (pg, stage, r, c) =
            while_remaining_tasks
              (dict_set pg (stage_key stage) [fst (hd r)], Suc stage, tl r, insert (fst (hd r)) c)"
          by (subst while_remaining_tasks_step [OF less.prems(1) False]) (simp add: True)
        show "[fst (hd r)] \<noteq> []" by simp
        show "mset [fst (hd r)] + mset (map fst (tl r)) = mset (map fst r)" by (simp add: r)
        show "distinct (map fst (tl r))" using less.prems(1) by (simp add: r)
      qed
    next
      case np: False
      show ?thesis
      proof (rule that)
        show "while_remaining_tasks (pg, stage, r, c) =
            while_remaining_tasks
              (dict_set pg (stage_key stage) ?p, Suc stage,
               filter (\<lambda>kv. fst kv \<notin> set ?p) r, c \<union> set ?p)"
          by (subst while_remaining_tasks_step [OF less.prems(1) False]) (simp add: np)
        show "?p \<noteq> []" by (rule np)
        show "mset ?p + mset (map fst (filter (\<lambda>kv. fst kv \<notin> set ?p) r)) = mset (map fst r)"
        proof -
          have "map fst (filter (\<lambda>kv. fst kv \<notin> set ?p) r) =
              filter (\<lambda>x. x \<notin> set ?p) (map fst r)"
            by (rule keys_filter)
          with mset_split_placed [OF less.prems(1) dp sub] show ?thesis by (simp only:)
        qed
        show "distinct (map fst (filter (\<lambda>kv. fst kv \<notin> set ?p) r))"
          using less.prems(1) by (rule distinct_map_filter)
      qed
    qed
    from m s have "length r' < length r"
      by (metis (no_types) add.commute length_greater_0_conv length_map less_add_same_cancel1
          size_mset size_union)
    moreover note d'
    moreover have "fst ` set (dict_set pg (stage_key stage) s) \<subseteq> stage_key ` {..<Suc stage}"
      using less.prems(2) by (rule dict_set_next_stage)
    ultimately obtain stages where
      res: "while_remaining_tasks (dict_set pg (stage_key stage) s, Suc stage, r', c') =
              Inr (dict_set pg (stage_key stage) s @ labelled (Suc stage) stages)"
      and ne: "[] \<notin> set stages" and ms: "mset (concat stages) = mset (map fst r')"
      using less.hyps by blast
    have "while_remaining_tasks (pg, stage, r, c) = Inr (pg @ labelled stage (s # stages))"
      using step res dict_set_next_stage(1) [OF less.prems(2)] by (simp add: labelled_Cons)
    moreover have "[] \<notin> set (s # stages)" using s ne by auto
    moreover have "mset (concat (s # stages)) = mset (map fst r)" using ms m by simp
    ultimately show ?thesis by blast
  qed
qed

lemma exec_deps_Cons: "exec_deps ((k, x) # items) = (k, dependencies_exec x) # exec_deps items"
  by (simp add: exec_deps_def)

lemma exec_deps_Nil: "exec_deps [] = []"
  by (simp add: exec_deps_def)

lemma exec_deps_keys: "map fst (exec_deps r) = map fst r"
  by (simp add: exec_deps_def case_prod_unfold)

lemma exec_deps_filter:
  "exec_deps (filter (\<lambda>kv. P (fst kv)) r) = filter (\<lambda>kv. P (fst kv)) (exec_deps r)"
  by (induction r) (auto simp: exec_deps_def)

lemma exec_deps_tl: "exec_deps (tl r) = tl (exec_deps r)"
  by (simp add: exec_deps_def map_tl)

lemma task_deps_tl: "task_deps (tl r) = tl (task_deps r)"
  by (simp add: task_deps_def map_tl)

lemma scan_executions_eq:
  "distinct (map fst items) \<Longrightarrow> distinct (map fst r) \<Longrightarrow> fst ` set items \<subseteq> fst ` set r \<Longrightarrow>
     scan_executions items (cs, c, r) =
       Inr (cs @ ready_ids (exec_deps items) c, c \<union> set (ready_ids (exec_deps items) c),
            filter (\<lambda>kv. fst kv \<notin> set (ready_ids (exec_deps items) c)) r)"
proof (induction items arbitrary: cs c r)
  case Nil
  then show ?case by (simp add: exec_deps_Nil)
next
  case (Cons a items)
  obtain k x where a: "a = (k, x)" by (cases a)
  from Cons.prems(1) a have di: "distinct (map fst items)" and k: "k \<notin> fst ` set items"
    by simp_all
  have sub: "fst ` set items \<subseteq> fst ` set r" using Cons.prems(3) by simp
  show ?case
  proof (cases "list_all (\<lambda>dep. dep \<in> c) (dependencies_exec x)")
    case True
    let ?r1 = "filter (\<lambda>kv. fst kv \<noteq> k) r"
    let ?p = "ready_ids (exec_deps items) (insert k c)"
    from Cons.prems(3) a have "k \<in> fst ` set r" by simp
    with Cons.prems(2) have d: "dict_del r k = Inr ?r1"
      by (rule dict_del_present)
    have d1: "distinct (map fst ?r1)" using Cons.prems(2) by (rule distinct_map_filter)
    from k sub have s1: "fst ` set items \<subseteq> fst ` set ?r1" by (rule keys_filter_neq)
    have "scan_executions items (cs @ [k], insert k c, ?r1) =
       Inr ((cs @ [k]) @ ?p, insert k c \<union> set ?p, filter (\<lambda>kv. fst kv \<notin> set ?p) ?r1)"
      using di d1 s1 by (rule Cons.IH)
    moreover have "ready_ids (exec_deps (a # items)) c = k # ?p"
      using True a by (simp add: exec_deps_Cons)
    ultimately show ?thesis using True a d by simp
  next
    case False
    from di Cons.prems(2) sub have "scan_executions items (cs, c, r) =
       Inr (cs @ ready_ids (exec_deps items) c, c \<union> set (ready_ids (exec_deps items) c),
            filter (\<lambda>kv. fst kv \<notin> set (ready_ids (exec_deps items) c)) r)"
      by (rule Cons.IH)
    moreover have "ready_ids (exec_deps (a # items)) c = ready_ids (exec_deps items) c"
      using False a by (simp add: exec_deps_Cons)
    ultimately show ?thesis using False a by simp
  qed
qed

lemma while_remaining_executions_step:
  assumes "distinct (map fst r)" and "r \<noteq> []"
  shows "while_remaining_executions (pg, stage, r, c) =
     (if ready_ids (exec_deps r) c \<noteq> [] then
        while_remaining_executions
          (dict_set pg (stage_key stage) (ready_ids (exec_deps r) c), Suc stage,
           filter (\<lambda>kv. fst kv \<notin> set (ready_ids (exec_deps r) c)) r,
           c \<union> set (ready_ids (exec_deps r) c))
      else
        while_remaining_executions
          (dict_set pg (stage_key stage) [fst (hd r)], Suc stage, tl r, insert (fst (hd r)) c))"
proof -
  have s: "scan_executions r ([], c, r) =
       Inr (ready_ids (exec_deps r) c, c \<union> set (ready_ids (exec_deps r) c),
            filter (\<lambda>kv. fst kv \<notin> set (ready_ids (exec_deps r) c)) r)"
    using scan_executions_eq [of r r "[]" c] assms(1) by simp
  obtain k x r0 where r: "r = (k, x) # r0" using assms(2) by (cases r) auto
  show ?thesis
  proof (cases "ready_ids (exec_deps r) c = []")
    case True
    with s have s': "scan_executions r ([], c, r) = Inr ([], c, r)" by simp
    show ?thesis
      by (subst while_remaining_executions.simps) (simp add: s' True assms(2), simp add: r)
  next
    case False
    show ?thesis
      by (subst while_remaining_executions.simps) (simp add: s False assms(2))
  qed
qed

text \<open>Both loops compute the same groups from dictionaries with the same keys and
  dependency lists.\<close>

lemma while_remaining_same:
  "distinct (map fst re) \<Longrightarrow> exec_deps re = task_deps rt \<Longrightarrow>
     while_remaining_executions (pg, stage, re, c) = while_remaining_tasks (pg, stage, rt, c)"
proof (induction "length re" arbitrary: re rt pg stage c rule: less_induct)
  case less
  have keys: "map fst re = map fst rt"
    by (metis less.prems(2) exec_deps_keys task_deps_keys)
  then have len: "length re = length rt" by (metis length_map)
  have dt: "distinct (map fst rt)" using less.prems(1) unfolding keys .
  show ?case
  proof (cases "re = []")
    case True
    with len have rt: "rt = []" by simp
    have "while_remaining_executions (pg, stage, re, c) = Inr pg"
      by (subst while_remaining_executions.simps) (simp add: True)
    moreover have "while_remaining_tasks (pg, stage, rt, c) = Inr pg"
      by (subst while_remaining_tasks.simps) (simp add: rt)
    ultimately show ?thesis by (simp only:)
  next
    case False
    with len have nt: "rt \<noteq> []" by auto
    let ?p = "ready_ids (exec_deps re) c"
    have p: "ready_ids (task_deps rt) c = ?p" by (simp only: less.prems(2))
    show ?thesis
    proof (cases "?p = []")
      case True
      have hd: "fst (hd rt) = fst (hd re)" using keys False nt by (metis hd_map)
      have "length (tl re) < length re" using False by simp
      moreover have "distinct (map fst (tl re))"
        using less.prems(1) False by (cases re) simp_all
      moreover have "exec_deps (tl re) = task_deps (tl rt)"
        by (simp only: exec_deps_tl task_deps_tl less.prems(2))
      ultimately have "while_remaining_executions
            (dict_set pg (stage_key stage) [fst (hd re)], Suc stage, tl re, insert (fst (hd re)) c) =
          while_remaining_tasks
            (dict_set pg (stage_key stage) [fst (hd re)], Suc stage, tl rt, insert (fst (hd re)) c)"
        by (rule less.hyps)
      moreover have "while_remaining_executions (pg, stage, re, c) =
          while_remaining_executions
            (dict_set pg (stage_key stage) [fst (hd re)], Suc stage, tl re, insert (fst (hd re)) c)"
        by (subst while_remaining_executions_step [OF less.prems(1) False]) (simp add: True)
      moreover have "while_remaining_tasks (pg, stage, rt, c) =
          while_remaining_tasks
            (dict_set pg (stage_key stage) [fst (hd re)], Suc stage, tl rt, insert (fst (hd re)) c)"
        by (subst while_remaining_tasks_step [OF dt nt]) (simp add: True p hd)
      ultimately show ?thesis by (simp only:)
    next
      case np: False
      let ?re = "filter (\<lambda>kv. fst kv \<notin> set ?p) re"
      let ?rt = "filter (\<lambda>kv. fst kv \<notin> set ?p) rt"
      define k where "k = hd ?p"
      have k: "k \<in> set ?p" unfolding k_def using np by (rule hd_in_set)
      have "set ?p \<subseteq> fst ` set (exec_deps re)" by (rule ready_ids_subset)
      also have "fst ` set (exec_deps re) = set (map fst (exec_deps re))" by simp
      also have "\<dots> = set (map fst re)" by (simp only: exec_deps_keys)
      finally have "k \<in> set (map fst re)" using k by blast
      then obtain kv where kv: "kv \<in> set re" "fst kv = k" by auto
      have "\<not> fst kv \<notin> set ?p" using k kv(2) by simp
      with kv(1) have "length ?re < length re" by (rule length_filter_less)
      moreover have "distinct (map fst ?re)" using less.prems(1) by (rule distinct_map_filter)
      moreover have "exec_deps ?re = task_deps ?rt"
      proof -
        have "exec_deps ?re = filter (\<lambda>kv. fst kv \<notin> set ?p) (exec_deps re)"
          by (rule exec_deps_filter)
        moreover have "task_deps ?rt = filter (\<lambda>kv. fst kv \<notin> set ?p) (task_deps rt)"
          by (rule task_deps_filter)
        ultimately show ?thesis by (simp only: less.prems(2))
      qed
      ultimately have "while_remaining_executions
            (dict_set pg (stage_key stage) ?p, Suc stage, ?re, c \<union> set ?p) =
          while_remaining_tasks (dict_set pg (stage_key stage) ?p, Suc stage, ?rt, c \<union> set ?p)"
        by (rule less.hyps)
      moreover have "while_remaining_executions (pg, stage, re, c) =
          while_remaining_executions
            (dict_set pg (stage_key stage) ?p, Suc stage, ?re, c \<union> set ?p)"
        by (subst while_remaining_executions_step [OF less.prems(1) False]) (simp add: np)
      moreover have "while_remaining_tasks (pg, stage, rt, c) =
          while_remaining_tasks (dict_set pg (stage_key stage) ?p, Suc stage, ?rt, c \<union> set ?p)"
        by (subst while_remaining_tasks_step [OF dt nt]) (simp add: np p)
      ultimately show ?thesis by (simp only:)
    qed
  qed
qed

text \<open>The dictionaries built from the inputs.\<close>

lemma dict_set_task_deps:
  "task_deps (dict_set d k t) = dict_set (task_deps d) k (dependencies t)"
  by (induction d) (auto simp: task_deps_def)

lemma dict_set_exec_deps:
  "exec_deps (dict_set d k x) = dict_set (exec_deps d) k (dependencies_exec x)"
  by (induction d) (auto simp: exec_deps_def)

lemma foldl_task_deps:
  "task_deps (foldl (\<lambda>d task. dict_set d (id_task task) task) d0 tasks) =
     foldl (\<lambda>d (k, deps). dict_set d k deps) (task_deps d0)
       (map (\<lambda>task. (id_task task, dependencies task)) tasks)"
  by (induction tasks arbitrary: d0) (simp_all add: dict_set_task_deps)

lemma foldl_exec_deps:
  "exec_deps (foldl (\<lambda>d exec. dict_set d (id_exec exec) exec) d0 executions) =
     foldl (\<lambda>d (k, deps). dict_set d k deps) (exec_deps d0)
       (map (\<lambda>exec. (id_exec exec, dependencies_exec exec)) executions)"
  by (induction executions arbitrary: d0) (simp_all add: dict_set_exec_deps)

lemma map_pair_cong:
  "map f xs = map f' ys \<Longrightarrow> map g xs = map g' ys \<Longrightarrow>
     map (\<lambda>x. (f x, g x)) xs = map (\<lambda>y. (f' y, g' y)) ys"
proof (induction xs arbitrary: ys)
  case Nil
  then show ?case by simp
next
  case (Cons x xs)
  then show ?case by (cases ys) auto
qed

lemma by_id_same:
  assumes "map id_exec executions = map id_task tasks"
    and "map dependencies_exec executions = map dependencies tasks"
  shows "exec_deps (executions_by_id executions) = task_deps (tasks_by_id tasks)"
  unfolding executions_by_id_def tasks_by_id_def foldl_exec_deps foldl_task_deps
  using map_pair_cong [OF assms] by (simp add: exec_deps_Nil task_deps_Nil)

lemma foldl_dict_set_distinct:
  "distinct (map fst d0) \<Longrightarrow> distinct (map fst (foldl (\<lambda>d x. dict_set d (f x) x) d0 xs))"
  by (induction xs arbitrary: d0) (simp_all add: dict_set_distinct)

lemma tasks_by_id_distinct: "distinct (map fst (tasks_by_id tasks))"
  unfolding tasks_by_id_def by (rule foldl_dict_set_distinct) simp

lemma executions_by_id_distinct: "distinct (map fst (executions_by_id executions))"
  unfolding executions_by_id_def by (rule foldl_dict_set_distinct) simp

lemma foldl_dict_set_fresh:
  "distinct (map fst d0 @ map f xs) \<Longrightarrow>
     foldl (\<lambda>d x. dict_set d (f x) x) d0 xs = d0 @ map (\<lambda>x. (f x, x)) xs"
proof (induction xs arbitrary: d0)
  case Nil
  then show ?case by simp
next
  case (Cons x xs)
  from Cons.prems have fresh: "f x \<notin> fst ` set d0" by auto
  have "distinct (map fst (d0 @ [(f x, x)]) @ map f xs)" using Cons.prems by auto
  from Cons.IH [OF this] show ?case by (simp add: dict_set_fresh [OF fresh])
qed

lemma tasks_by_id_unique:
  "distinct (map id_task tasks) \<Longrightarrow> tasks_by_id tasks = map (\<lambda>t. (id_task t, t)) tasks"
  unfolding tasks_by_id_def using foldl_dict_set_fresh [of "[]" id_task tasks] by simp

lemma executions_by_id_unique:
  "distinct (map id_exec executions) \<Longrightarrow>
     executions_by_id executions = map (\<lambda>x. (id_exec x, x)) executions"
  unfolding executions_by_id_def using foldl_dict_set_fresh [of "[]" id_exec executions] by simp

lemma calculate_eq_identify:
  assumes "map id_exec executions = map id_task tasks"
    and "map dependencies_exec executions = map dependencies tasks"
  shows "calculate_parallel_groups executions = identify_parallel_opportunities tasks"
  unfolding calculate_parallel_groups_def identify_parallel_opportunities_def
  using executions_by_id_distinct by_id_same [OF assms] by (rule while_remaining_same)

lemma digit_char_Suc_0: "digit_char (Suc 0) = CHR ''1''"
  using digit_char_values(2) by simp

lemmas run_simps =
  identify_parallel_opportunities_def calculate_parallel_groups_def tasks_by_id_def
  executions_by_id_def while_remaining_tasks.simps while_remaining_executions.simps
  stage_key_def str_of_nat.simps digit_char_values digit_char_Suc_0

section \<open>The result of the partitioners\<close>

lemma identify_result:
  "\<exists>stages. identify_parallel_opportunities tasks = Inr (labelled 0 stages)
     \<and> [] \<notin> set stages \<and> mset (concat stages) = mset (map fst (tasks_by_id tasks))"
  unfolding identify_parallel_opportunities_def
  using while_remaining_tasks_result [OF tasks_by_id_distinct, of "[]" 0 tasks "{}"] by simp

lemma calculate_as_identify:
  "\<exists>tasks. map id_task tasks = map id_exec executions
     \<and> map dependencies tasks = map dependencies_exec executions
     \<and> calculate_parallel_groups executions = identify_parallel_opportunities tasks"
proof -
  let ?f = "\<lambda>x. \<lparr>id_task = id_exec x, content = [], active_form = [], status = [],
     dependencies = dependencies_exec x, estimated_duration = None, tags = [],
     created_at = []\<rparr>"
  have i: "map id_exec executions = map id_task (map ?f executions)" by (simp add: comp_def)
  have d: "map dependencies_exec executions = map dependencies (map ?f executions)"
    by (simp add: comp_def)
  show ?thesis
  proof (intro exI conjI)
    show "map id_task (map ?f executions) = map id_exec executions" by (rule i [symmetric])
    show "map dependencies (map ?f executions) = map dependencies_exec executions"
      by (rule d [symmetric])
    show "calculate_parallel_groups executions =
        identify_parallel_opportunities (map ?f executions)"
      using i d by (rule calculate_eq_identify)
  qed
qed

lemma by_id_same_keys:
  assumes "map id_exec executions = map id_task tasks"
    and "map dependencies_exec executions = map dependencies tasks"
  shows "map fst (executions_by_id executions) = map fst (tasks_by_id tasks)"
proof -
  have "map fst (executions_by_id executions) = map fst (exec_deps (executions_by_id executions))"
    by (rule exec_deps_keys [symmetric])
  also have "\<dots> = map fst (task_deps (tasks_by_id tasks))"
    by (simp only: by_id_same [OF assms])
  also have "\<dots> = map fst (tasks_by_id tasks)" by (rule task_deps_keys)
  finally show ?thesis .
qed

lemma calculate_result:
  "\<exists>stages. calculate_parallel_groups executions = Inr (labelled 0 stages)
     \<and> [] \<notin> set stages \<and> mset (concat stages) = mset (map fst (executions_by_id executions))"
proof -
  from calculate_as_identify obtain tasks where
    t: "map id_task tasks = map id_exec executions"
      "map dependencies tasks = map dependencies_exec executions"
      "calculate_parallel_groups executions = identify_parallel_opportunities tasks"
    by blast
  have "map fst (executions_by_id executions) = map fst (tasks_by_id tasks)"
    using t(1) [symmetric] t(2) [symmetric] by (rule by_id_same_keys)
  with identify_result [of tasks] t(3) show ?thesis by (simp only:)
qed

lemma tasks_by_id_keys: "distinct (map id_task tasks) \<Longrightarrow> map fst (tasks_by_id tasks) = map id_task tasks"
  by (simp add: tasks_by_id_unique comp_def)

lemma executions_by_id_keys:
  "distinct (map id_exec executions) \<Longrightarrow> map fst (executions_by_id executions) = map id_exec executions"
  by (simp add: executions_by_id_unique comp_def)

lemma length_le_concat: "[] \<notin> set xss \<Longrightarrow> length xss \<le> length (concat xss)"
proof (induction xss)
  case Nil
  show ?case by simp
next
  case (Cons xs xss)
  then have "xs \<noteq> []" "length xss \<le> length (concat xss)" by auto
  then show ?case by (cases xs) simp_all
qed

section \<open>Every id in exactly one stage\<close>

text \<open>
  C3. For input items with pairwise-distinct ids, whatever their dependencies, both
  partitioners return without an error, and the stage contents taken together hold each
  input id exactly once: as multisets they equal the input ids, and no id is repeated
  within or across stages.
\<close>

theorem every_id_in_exactly_one_stage:
  "(distinct (map id_task tasks) \<longrightarrow>
      (\<exists>groups. identify_parallel_opportunities tasks = Inr groups
         \<and> mset (concat (map snd groups)) = mset (map id_task tasks)
         \<and> distinct (concat (map snd groups))))
   \<and> (distinct (map id_exec executions) \<longrightarrow>
      (\<exists>groups. calculate_parallel_groups executions = Inr groups
         \<and> mset (concat (map snd groups)) = mset (map id_exec executions)
         \<and> distinct (concat (map snd groups))))"
proof (intro conjI impI)
  assume d: "distinct (map id_task tasks)"
  from identify_result [of tasks] obtain stages where
    r: "identify_parallel_opportunities tasks = Inr (labelled 0 stages)"
    and m: "mset (concat stages) = mset (map fst (tasks_by_id tasks))" by blast
  from m have m': "mset (concat stages) = mset (map id_task tasks)"
    by (simp only: tasks_by_id_keys [OF d])
  then have "distinct (concat stages)" using d by (metis mset_eq_imp_distinct_iff)
  with r m' show "\<exists>groups. identify_parallel_opportunities tasks = Inr groups
         \<and> mset (concat (map snd groups)) = mset (map id_task tasks)
         \<and> distinct (concat (map snd groups))"
    by (simp add: labelled_values)
next
  assume d: "distinct (map id_exec executions)"
  from calculate_result [of executions] obtain stages where
    r: "calculate_parallel_groups executions = Inr (labelled 0 stages)"
    and m: "mset (concat stages) = mset (map fst (executions_by_id executions))" by blast
  from m have m': "mset (concat stages) = mset (map id_exec executions)"
    by (simp only: executions_by_id_keys [OF d])
  then have "distinct (concat stages)" using d by (metis mset_eq_imp_distinct_iff)
  with r m' show "\<exists>groups. calculate_parallel_groups executions = Inr groups
         \<and> mset (concat (map snd groups)) = mset (map id_exec executions)
         \<and> distinct (concat (map snd groups))"
    by (simp add: labelled_values)
qed

theorem every_id_in_exactly_one_stage_witness:
  "distinct (map id_task auth_tasks)
   \<and> (\<exists>groups. identify_parallel_opportunities auth_tasks = Inr groups
         \<and> mset (concat (map snd groups)) = mset (map id_task auth_tasks)
         \<and> distinct (concat (map snd groups)))
   \<and> distinct (map id_exec example_executions)
   \<and> (\<exists>groups. calculate_parallel_groups example_executions = Inr groups
         \<and> mset (concat (map snd groups)) = mset (map id_exec example_executions)
         \<and> distinct (concat (map snd groups)))"
proof -
  have t: "distinct (map id_task auth_tasks)" by (simp add: auth_tasks_def)
  have e: "distinct (map id_exec example_executions)"
    by (simp add: example_executions_def new_execution_def)
  from every_id_in_exactly_one_stage [of auth_tasks example_executions] t e
  show ?thesis by blast
qed

section \<open>Number of stages\<close>

text \<open>
  C4. For input items with pairwise-distinct ids both partitioners return (the loops
  are total functions and no error is raised), with at most as many stages as there
  are items.
\<close>

theorem at_most_one_stage_per_item:
  "(distinct (map id_task tasks) \<longrightarrow>
      (\<exists>groups. identify_parallel_opportunities tasks = Inr groups
         \<and> length groups \<le> length tasks))
   \<and> (distinct (map id_exec executions) \<longrightarrow>
      (\<exists>groups. calculate_parallel_groups executions = Inr groups
         \<and> length groups \<le> length executions))"
proof (intro conjI impI)
  assume d: "distinct (map id_task tasks)"
  from identify_result [of tasks] obtain stages where
    r: "identify_parallel_opportunities tasks = Inr (labelled 0 stages)"
    and n: "[] \<notin> set stages"
    and m: "mset (concat stages) = mset (map fst (tasks_by_id tasks))" by blast
  from m have "mset (concat stages) = mset (map id_task tasks)"
    by (simp only: tasks_by_id_keys [OF d])
  then have "length (concat stages) = length tasks" by (metis length_map size_mset)
  with length_le_concat [OF n] have "length (labelled 0 stages) \<le> length tasks"
    by (simp add: labelled_length)
  with r show "\<exists>groups. identify_parallel_opportunities tasks = Inr groups
         \<and> length groups \<le> length tasks" by blast
next
  assume d: "distinct (map id_exec executions)"
  from calculate_result [of executions] obtain stages where
    r: "calculate_parallel_groups executions = Inr (labelled 0 stages)"
    and n: "[] \<notin> set stages"
    and m: "mset (concat stages) = mset (map fst (executions_by_id executions))" by blast
  from m have "mset (concat stages) = mset (map id_exec executions)"
    by (simp only: executions_by_id_keys [OF d])
  then have "length (concat stages) = length executions" by (metis length_map size_mset)
  with length_le_concat [OF n] have "length (labelled 0 stages) \<le> length executions"
    by (simp add: labelled_length)
  with r show "\<exists>groups. calculate_parallel_groups executions = Inr groups
         \<and> length groups \<le> length executions" by blast
qed

theorem at_most_one_stage_per_item_witness:
  "distinct (map id_task auth_tasks)
   \<and> (\<exists>groups. identify_parallel_opportunities auth_tasks = Inr groups
         \<and> length groups \<le> length auth_tasks)
   \<and> distinct (map id_exec example_executions)
   \<and> (\<exists>groups. calculate_parallel_groups example_executions = Inr groups
         \<and> length groups \<le> length example_executions)"
proof -
  have t: "distinct (map id_task auth_tasks)" by (simp add: auth_tasks_def)
  have e: "distinct (map id_exec example_executions)"
    by (simp add: example_executions_def new_execution_def)
  from at_most_one_stage_per_item [of auth_tasks example_executions] t e
  show ?thesis by blast
qed

section \<open>Forced singleton stages\<close>

lemma scan_tasks_grows:
  "scan_tasks items (cs, c, r) = Inr (cs', c', r') \<Longrightarrow> length cs \<le> length cs'"
proof (induction items arbitrary: cs c r)
  case Nil
  then show ?case by simp
next
  case (Cons a items)
  obtain k t where a: "a = (k, t)" by (cases a)
  show ?case
  proof (cases "list_all (\<lambda>dep. dep \<in> c) (dependencies t)")
    case True
    with Cons.prems a obtain r1 where
      "scan_tasks items (cs @ [k], insert k c, r1) = Inr (cs', c', r')"
      by (auto split: sum.splits)
    from Cons.IH [OF this] show ?thesis by simp
  next
    case False
    with Cons.prems a have "scan_tasks items (cs, c, r) = Inr (cs', c', r')" by simp
    from Cons.IH [OF this] show ?thesis .
  qed
qed

lemma scan_tasks_none_placed:
  "scan_tasks items (cs, c, r) = Inr (cs, c', r') \<Longrightarrow> c' = c \<and> r' = r"
proof (induction items arbitrary: c r)
  case Nil
  then show ?case by simp
next
  case (Cons a items)
  obtain k t where a: "a = (k, t)" by (cases a)
  show ?case
  proof (cases "list_all (\<lambda>dep. dep \<in> c) (dependencies t)")
    case True
    with Cons.prems a obtain r1 where
      "scan_tasks items (cs @ [k], insert k c, r1) = Inr (cs, c', r')"
      by (auto split: sum.splits)
    from scan_tasks_grows [OF this] show ?thesis by simp
  next
    case False
    with Cons.prems a have "scan_tasks items (cs, c, r) = Inr (cs, c', r')" by simp
    from Cons.IH [OF this] show ?thesis .
  qed
qed

lemma scan_executions_grows:
  "scan_executions items (cs, c, r) = Inr (cs', c', r') \<Longrightarrow> length cs \<le> length cs'"
proof (induction items arbitrary: cs c r)
  case Nil
  then show ?case by simp
next
  case (Cons a items)
  obtain k x where a: "a = (k, x)" by (cases a)
  show ?case
  proof (cases "list_all (\<lambda>dep. dep \<in> c) (dependencies_exec x)")
    case True
    with Cons.prems a obtain r1 where
      "scan_executions items (cs @ [k], insert k c, r1) = Inr (cs', c', r')"
      by (auto split: sum.splits)
    from Cons.IH [OF this] show ?thesis by simp
  next
    case False
    with Cons.prems a have "scan_executions items (cs, c, r) = Inr (cs', c', r')" by simp
    from Cons.IH [OF this] show ?thesis .
  qed
qed

lemma scan_executions_none_placed:
  "scan_executions items (cs, c, r) = Inr (cs, c', r') \<Longrightarrow> c' = c \<and> r' = r"
proof (induction items arbitrary: c r)
  case Nil
  then show ?case by simp
next
  case (Cons a items)
  obtain k x where a: "a = (k, x)" by (cases a)
  show ?case
  proof (cases "list_all (\<lambda>dep. dep \<in> c) (dependencies_exec x)")
    case True
    with Cons.prems a obtain r1 where
      "scan_executions items (cs @ [k], insert k c, r1) = Inr (cs, c', r')"
      by (auto split: sum.splits)
    from scan_executions_grows [OF this] show ?thesis by simp
  next
    case False
    with Cons.prems a have "scan_executions items (cs, c, r) = Inr (cs, c', r')" by simp
    from Cons.IH [OF this] show ?thesis .
  qed
qed

lemma forced_task:
  assumes "scan_tasks ((task_id, task) # items) ([], c, (task_id, task) # items) = Inr ([], c', r')"
  shows "while_remaining_tasks (pg, stage, (task_id, task) # items, c) =
     while_remaining_tasks
       (dict_set pg (stage_key stage) [task_id], Suc stage, items, insert task_id c)"
proof -
  from scan_tasks_none_placed [OF assms] have "c' = c" "r' = (task_id, task) # items"
    by simp_all
  with assms show ?thesis by (subst while_remaining_tasks.simps) simp
qed

lemma forced_execution:
  assumes "scan_executions ((exec_id, execution) # items) ([], c, (exec_id, execution) # items) =
     Inr ([], c', r')"
  shows "while_remaining_executions (pg, stage, (exec_id, execution) # items, c) =
     while_remaining_executions
       (dict_set pg (stage_key stage) [exec_id], Suc stage, items, insert exec_id c)"
proof -
  from scan_executions_none_placed [OF assms] have "c' = c" "r' = (exec_id, execution) # items"
    by simp_all
  with assms show ?thesis by (subst while_remaining_executions.simps) simp
qed

lemma while_remaining_executions_result:
  assumes "distinct (map fst r)" and "fst ` set pg \<subseteq> stage_key ` {..<stage}"
  shows "\<exists>stages. while_remaining_executions (pg, stage, r, c) = Inr (pg @ labelled stage stages)
     \<and> [] \<notin> set stages \<and> mset (concat stages) = mset (map fst r)"
proof -
  let ?rt = "map (\<lambda>(k, x). (k, new_task k (dependencies_exec x))) r"
  have d: "exec_deps r = task_deps ?rt"
    by (simp add: exec_deps_def task_deps_def new_task_def case_prod_unfold comp_def)
  have k: "map fst ?rt = map fst r" by (simp add: case_prod_unfold comp_def)
  from assms(1) have "distinct (map fst ?rt)" by (simp only: k)
  from while_remaining_tasks_result [OF this assms(2), of c]
    while_remaining_same [OF assms(1) d, of pg stage c]
  show ?thesis by (simp only: k)
qed

lemma forced_task_result:
  assumes "scan_tasks ((task_id, task) # items) ([], c, (task_id, task) # items) = Inr ([], c', r')"
    and "distinct (map fst ((task_id, task) # items))"
    and "fst ` set pg \<subseteq> stage_key ` {..<stage}"
  shows "\<exists>later. while_remaining_tasks (pg, stage, (task_id, task) # items, c) =
     Inr (pg @ (stage_key stage, [task_id]) # later)"
proof -
  from assms(2) have d: "distinct (map fst items)" by simp
  note n = dict_set_next_stage [OF assms(3), of "[task_id]"]
  from while_remaining_tasks_result [OF d n(2), of "insert task_id c"] obtain stages where
    "while_remaining_tasks (dict_set pg (stage_key stage) [task_id], Suc stage, items,
        insert task_id c) =
      Inr (dict_set pg (stage_key stage) [task_id] @ labelled (Suc stage) stages)"
    by blast
  with forced_task [OF assms(1), of pg stage] n(1) show ?thesis by simp
qed

lemma forced_execution_result:
  assumes "scan_executions ((exec_id, execution) # items) ([], c, (exec_id, execution) # items) =
      Inr ([], c', r')"
    and "distinct (map fst ((exec_id, execution) # items))"
    and "fst ` set pg \<subseteq> stage_key ` {..<stage}"
  shows "\<exists>later. while_remaining_executions (pg, stage, (exec_id, execution) # items, c) =
     Inr (pg @ (stage_key stage, [exec_id]) # later)"
proof -
  from assms(2) have d: "distinct (map fst items)" by simp
  note n = dict_set_next_stage [OF assms(3), of "[exec_id]"]
  from while_remaining_executions_result [OF d n(2), of "insert exec_id c"] obtain stages where
    "while_remaining_executions (dict_set pg (stage_key stage) [exec_id], Suc stage, items,
        insert exec_id c) =
      Inr (dict_set pg (stage_key stage) [exec_id] @ labelled (Suc stage) stages)"
    by blast
  with forced_execution [OF assms(1), of pg stage] n(1) show ?thesis by simp
qed

lemma filter_first_key:
  assumes "distinct (map fst (kv # r))"
  shows "filter (\<lambda>x. fst x \<notin> set [fst kv]) (kv # r) = r"
proof -
  from assms have "fst kv \<notin> fst ` set r" by simp
  then have "\<forall>x\<in>set r. fst x \<noteq> fst kv" by (metis imageI)
  then have "filter (\<lambda>x. fst x \<noteq> fst kv) r = r" by (simp add: filter_id_conv)
  then show ?thesis by simp
qed

lemma while_remaining_tasks_stages:
  "distinct (map fst r) \<Longrightarrow> fst ` set pg \<subseteq> stage_key ` {..<stage} \<Longrightarrow>
     \<exists>stages. while_remaining_tasks (pg, stage, r, c) = Inr (pg @ labelled stage stages)
        \<and> stages_follow stages (task_deps r) c"
proof (induction "length r" arbitrary: r pg stage c rule: less_induct)
  case less
  show ?case
  proof (cases "r = []")
    case True
    have "while_remaining_tasks (pg, stage, r, c) = Inr (pg @ labelled stage [])"
      by (subst while_remaining_tasks.simps) (simp add: True labelled_Nil)
    then show ?thesis using True by (intro exI [of _ "[]"]) (simp add: task_deps_Nil)
  next
    case False
    let ?V = "task_deps r"
    let ?p = "ready_ids ?V c"
    define s where "s = (if ?p \<noteq> [] then ?p else [fst (hd ?V)])"
    let ?r' = "filter (\<lambda>kv. fst kv \<notin> set s) r"
    obtain kv r0 where r: "r = kv # r0" using False by (cases r) auto
    have hdV: "fst (hd ?V) = fst (hd r)" by (simp add: r task_deps_def case_prod_unfold)
    have Vne: "?V \<noteq> []" using False by (simp add: task_deps_def)
    have step: "while_remaining_tasks (pg, stage, r, c) =
        while_remaining_tasks (dict_set pg (stage_key stage) s, Suc stage, ?r', c \<union> set s)"
    proof (cases "?p = []")
      case True
      with hdV have a: "s = [fst (hd r)]" by (simp add: s_def)
      have "filter (\<lambda>x. fst x \<notin> set [fst kv]) (kv # r0) = r0"
        using less.prems(1) unfolding r by (rule filter_first_key)
      then have b: "?r' = tl r" unfolding a by (simp add: r)
      have c': "c \<union> set s = insert (fst (hd r)) c" unfolding a by simp
      have "while_remaining_tasks (pg, stage, r, c) =
          while_remaining_tasks
            (dict_set pg (stage_key stage) [fst (hd r)], Suc stage, tl r, insert (fst (hd r)) c)"
        by (subst while_remaining_tasks_step [OF less.prems(1) False]) (simp add: True)
      then show ?thesis unfolding b c' unfolding a .
    next
      case np: False
      then have a: "s = ?p" by (simp add: s_def)
      have "while_remaining_tasks (pg, stage, r, c) =
          while_remaining_tasks
            (dict_set pg (stage_key stage) ?p, Suc stage,
             filter (\<lambda>kv. fst kv \<notin> set ?p) r, c \<union> set ?p)"
        by (subst while_remaining_tasks_step [OF less.prems(1) False]) (simp add: np)
      then show ?thesis unfolding a .
    qed
    have sub: "set s \<subseteq> set (map fst r)"
    proof (cases "?p = []")
      case True
      with hdV have "s = [fst (hd r)]" by (simp add: s_def)
      then show ?thesis by (simp add: r)
    next
      case np: False
      have "set ?p \<subseteq> set (map fst r)"
        using ready_ids_subset [of ?V c] task_deps_keys [of r] by (metis list.set_map)
      with np show ?thesis by (simp add: s_def)
    qed
    have sne: "s \<noteq> []" by (simp add: s_def)
    define k where "k = hd s"
    have ks: "k \<in> set s" unfolding k_def using sne by (rule hd_in_set)
    with sub obtain x where x: "x \<in> set r" "fst x = k" by auto
    with ks have "\<not> fst x \<notin> set s" by simp
    with x(1) have less': "length ?r' < length r" by (rule length_filter_less)
    have d': "distinct (map fst ?r')" using less.prems(1) by (rule distinct_map_filter)
    note n = dict_set_next_stage [OF less.prems(2), of s]
    from less.hyps [OF less' d' n(2), of "c \<union> set s"] obtain stages where
      res: "while_remaining_tasks (dict_set pg (stage_key stage) s, Suc stage, ?r', c \<union> set s) =
              Inr (dict_set pg (stage_key stage) s @ labelled (Suc stage) stages)"
      and f: "stages_follow stages (task_deps ?r') (c \<union> set s)"
      by blast
    have "while_remaining_tasks (pg, stage, r, c) =
        Inr (dict_set pg (stage_key stage) s @ labelled (Suc stage) stages)"
      using step res by (simp only:)
    then have "while_remaining_tasks (pg, stage, r, c) = Inr (pg @ labelled stage (s # stages))"
      by (simp add: n(1) labelled_Cons)
    moreover have "task_deps ?r' = filter (\<lambda>kv. fst kv \<notin> set s) ?V"
      by (rule task_deps_filter)
    with f have "stages_follow stages (filter (\<lambda>kv. fst kv \<notin> set s) ?V) (c \<union> set s)"
      by (simp only:)
    with Vne s_def have "stages_follow (s # stages) ?V c"
      by (simp only: stages_follow.simps simp_thms)
    ultimately show ?thesis by blast
  qed
qed

lemma while_remaining_executions_stages:
  assumes "distinct (map fst r)" and "fst ` set pg \<subseteq> stage_key ` {..<stage}"
  shows "\<exists>stages. while_remaining_executions (pg, stage, r, c) = Inr (pg @ labelled stage stages)
     \<and> stages_follow stages (exec_deps r) c"
proof -
  let ?rt = "map (\<lambda>(k, x). (k, new_task k (dependencies_exec x))) r"
  have d: "exec_deps r = task_deps ?rt"
    by (simp add: exec_deps_def task_deps_def new_task_def case_prod_unfold comp_def)
  have k: "map fst ?rt = map fst r" by (simp add: case_prod_unfold comp_def)
  from assms(1) have "distinct (map fst ?rt)" by (simp only: k)
  from while_remaining_tasks_stages [OF this assms(2), of c]
    while_remaining_same [OF assms(1) d, of pg stage c]
  show ?thesis by (simp only: d)
qed

lemma stages_follow_forced:
  "stages_follow stages V c \<Longrightarrow>
   filter (\<lambda>kv. fst kv \<notin> set (concat (take k stages))) V = kv # rest \<Longrightarrow>
   ready_ids (kv # rest) (c \<union> set (concat (take k stages))) = [] \<Longrightarrow>
     k < length stages \<and> stages ! k = [fst kv]"
proof (induction stages arbitrary: V c k)
  case Nil
  then show ?case by simp
next
  case (Cons s stages)
  let ?V' = "filter (\<lambda>kv. fst kv \<notin> set s) V"
  note Cons.prems(1) [unfolded stages_follow.simps]
  then have Vne: "V \<noteq> []"
    and s: "s = (if ready_ids V c \<noteq> [] then ready_ids V c else [fst (hd V)])"
    and f: "stages_follow stages ?V' (c \<union> set s)"
    by blast+
  show ?case
  proof (cases k)
    case 0
    with Cons.prems(2,3) have "V = kv # rest" "ready_ids V c = []" by simp_all
    with s have "s = [fst kv]" by simp
    with 0 show ?thesis by simp
  next
    case (Suc k')
    have "filter (\<lambda>kv. fst kv \<notin> set (concat (take k' stages))) ?V' =
        filter (\<lambda>kv. fst kv \<notin> set (concat (take k (s # stages)))) V"
      by (simp add: Suc conj_commute)
    with Cons.prems(2) have a: "filter (\<lambda>kv. fst kv \<notin> set (concat (take k' stages))) ?V' = kv # rest"
      by (simp only:)
    have "c \<union> set s \<union> set (concat (take k' stages)) = c \<union> set (concat (take k (s # stages)))"
      by (simp add: Suc Un_assoc)
    with Cons.prems(3) have b: "ready_ids (kv # rest) (c \<union> set s \<union> set (concat (take k' stages))) = []"
      by (simp only:)
    from Cons.IH [OF f a b] show ?thesis by (simp add: Suc)
  qed
qed

lemma labelled_nth:
  "k < length stages \<Longrightarrow> labelled stage stages ! k = (stage_key (stage + k), stages ! k)"
  by (simp add: labelled_def)

lemma labelled_take: "map snd (take k (labelled stage stages)) = take k stages"
  by (simp add: labelled_def take_map [symmetric] take_zip)

lemma identify_forced:
  assumes g: "identify_parallel_opportunities tasks = Inr groups"
    and r: "filter (\<lambda>kv. fst kv \<notin> set (concat (map snd (take k groups)))) (tasks_by_id tasks) =
      (next_id, next_task) # others"
    and s: "scan_tasks ((next_id, next_task) # others)
      ([], set (concat (map snd (take k groups))), (next_id, next_task) # others) = Inr ([], c1, r1)"
  shows "k < length groups \<and> groups ! k = (stage_key k, [next_id])"
proof -
  let ?d = "tasks_by_id tasks"
  from while_remaining_tasks_stages [OF tasks_by_id_distinct, of "[]" 0 tasks "{}"] obtain stages
    where w: "while_remaining_tasks ([], 0, ?d, {}) = Inr ([] @ labelled 0 stages)"
      and f: "stages_follow stages (task_deps ?d) {}"
    by auto
  from w g have groups: "groups = labelled 0 stages"
    by (simp add: identify_parallel_opportunities_def)
  let ?placed = "concat (take k stages)"
  let ?rem = "(next_id, next_task) # others"
  have p: "concat (map snd (take k groups)) = ?placed" by (simp only: groups labelled_take)
  from r have rem: "filter (\<lambda>kv. fst kv \<notin> set ?placed) ?d = ?rem" by (simp only: p)
  have "distinct (map fst (filter (\<lambda>kv. fst kv \<notin> set ?placed) ?d))"
    using tasks_by_id_distinct by (rule distinct_map_filter)
  then have dr: "distinct (map fst ?rem)" by (simp only: rem)
  from s have s': "scan_tasks ?rem ([], set ?placed, ?rem) = Inr ([], c1, r1)" by (simp only: p)
  have "scan_tasks ?rem ([], set ?placed, ?rem) =
      Inr ([] @ ready_ids (task_deps ?rem) (set ?placed),
           set ?placed \<union> set (ready_ids (task_deps ?rem) (set ?placed)),
           filter (\<lambda>kv. fst kv \<notin> set (ready_ids (task_deps ?rem) (set ?placed))) ?rem)"
    using dr dr by (rule scan_tasks_eq) simp
  with s' have none: "ready_ids (task_deps ?rem) (set ?placed) = []" by simp
  have "task_deps (filter (\<lambda>kv. fst kv \<notin> set ?placed) ?d) =
      filter (\<lambda>kv. fst kv \<notin> set ?placed) (task_deps ?d)"
    by (rule task_deps_filter)
  then have v: "filter (\<lambda>kv. fst kv \<notin> set ?placed) (task_deps ?d) =
      (next_id, dependencies next_task) # task_deps others"
    by (simp only: rem task_deps_Cons)
  from none have n: "ready_ids ((next_id, dependencies next_task) # task_deps others)
      ({} \<union> set ?placed) = []"
    by (simp add: task_deps_Cons)
  from stages_follow_forced [OF f v n] have "k < length stages" "stages ! k = [next_id]"
    by simp_all
  then show ?thesis by (simp add: groups labelled_length labelled_nth)
qed

lemma calculate_forced:
  assumes g: "calculate_parallel_groups executions = Inr groups"
    and r: "filter (\<lambda>kv. fst kv \<notin> set (concat (map snd (take k groups))))
      (executions_by_id executions) = (next_id, next_execution) # others"
    and s: "scan_executions ((next_id, next_execution) # others)
      ([], set (concat (map snd (take k groups))), (next_id, next_execution) # others) =
      Inr ([], c1, r1)"
  shows "k < length groups \<and> groups ! k = (stage_key k, [next_id])"
proof -
  let ?d = "executions_by_id executions"
  from while_remaining_executions_stages [OF executions_by_id_distinct, of "[]" 0 executions "{}"]
  obtain stages
    where w: "while_remaining_executions ([], 0, ?d, {}) = Inr ([] @ labelled 0 stages)"
      and f: "stages_follow stages (exec_deps ?d) {}"
    by auto
  from w g have groups: "groups = labelled 0 stages"
    by (simp add: calculate_parallel_groups_def)
  let ?placed = "concat (take k stages)"
  let ?rem = "(next_id, next_execution) # others"
  have p: "concat (map snd (take k groups)) = ?placed" by (simp only: groups labelled_take)
  from r have rem: "filter (\<lambda>kv. fst kv \<notin> set ?placed) ?d = ?rem" by (simp only: p)
  have "distinct (map fst (filter (\<lambda>kv. fst kv \<notin> set ?placed) ?d))"
    using executions_by_id_distinct by (rule distinct_map_filter)
  then have dr: "distinct (map fst ?rem)" by (simp only: rem)
  from s have s': "scan_executions ?rem ([], set ?placed, ?rem) = Inr ([], c1, r1)"
    by (simp only: p)
  have "scan_executions ?rem ([], set ?placed, ?rem) =
      Inr ([] @ ready_ids (exec_deps ?rem) (set ?placed),
           set ?placed \<union> set (ready_ids (exec_deps ?rem) (set ?placed)),
           filter (\<lambda>kv. fst kv \<notin> set (ready_ids (exec_deps ?rem) (set ?placed))) ?rem)"
    using dr dr by (rule scan_executions_eq) simp
  with s' have none: "ready_ids (exec_deps ?rem) (set ?placed) = []" by simp
  have "exec_deps (filter (\<lambda>kv. fst kv \<notin> set ?placed) ?d) =
      filter (\<lambda>kv. fst kv \<notin> set ?placed) (exec_deps ?d)"
    by (rule exec_deps_filter)
  then have v: "filter (\<lambda>kv. fst kv \<notin> set ?placed) (exec_deps ?d) =
      (next_id, dependencies_exec next_execution) # exec_deps others"
    by (simp only: rem exec_deps_Cons)
  from none have n: "ready_ids ((next_id, dependencies_exec next_execution) # exec_deps others)
      ({} \<union> set ?placed) = []"
    by (simp add: exec_deps_Cons)
  from stages_follow_forced [OF f v n] have "k < length stages" "stages ! k = [next_id]"
    by simp_all
  then show ?thesis by (simp add: groups labelled_length labelled_nth)
qed

lemma digit_char_Suc_Suc_0: "digit_char (Suc (Suc 0)) = CHR ''2''"
  using digit_char_values(3) by (simp add: numeral_2_eq_2)

text \<open>
  C7. For every input, with cyclic or dangling dependencies too, both partitioners return
  a result and raise no error. Take the mapping a partitioner returns and any number
  \<open>k\<close>: the items still remaining after the first \<open>k\<close> stages are the entries of
  the id dictionary whose ids those stages do not hold, in insertion order, and the
  completed ids are the ids those stages hold. Whenever a scan of these remaining items
  with these completed ids leaves \<open>current_stage\<close> empty, the mapping has a stage
  \<open>k\<close>, and it holds the first remaining id alone, whatever dependencies that item
  declares. Inside the loop: after such a scan the loop goes on with the first remaining
  key alone under the next stage key, that key marked completed and removed, and from a
  state the loop can reach the final mapping is the groups so far, then this singleton
  stage, then the later stages.
\<close>

theorem no_error_and_forced_singleton:
  "(\<exists>groups. identify_parallel_opportunities tasks = Inr groups)
   \<and> (\<exists>groups. calculate_parallel_groups executions = Inr groups)
   \<and> (identify_parallel_opportunities tasks = Inr task_groups
        \<and> filter (\<lambda>kv. fst kv \<notin> set (concat (map snd (take k task_groups))))
             (tasks_by_id tasks) = (next_id, next_task) # other_tasks
        \<and> scan_tasks ((next_id, next_task) # other_tasks)
             ([], set (concat (map snd (take k task_groups))), (next_id, next_task) # other_tasks) =
             Inr ([], c1, r1) \<longrightarrow>
        k < length task_groups \<and> task_groups ! k = (stage_key k, [next_id]))
   \<and> (calculate_parallel_groups executions = Inr execution_groups
        \<and> filter (\<lambda>kv. fst kv \<notin> set (concat (map snd (take n execution_groups))))
             (executions_by_id executions) = (next_exec_id, next_execution) # other_executions
        \<and> scan_executions ((next_exec_id, next_execution) # other_executions)
             ([], set (concat (map snd (take n execution_groups))),
              (next_exec_id, next_execution) # other_executions) =
             Inr ([], c2, r2) \<longrightarrow>
        n < length execution_groups
        \<and> execution_groups ! n = (stage_key n, [next_exec_id]))
   \<and> (scan_tasks ((task_id, task) # remaining_tasks)
          ([], completed_tasks, (task_id, task) # remaining_tasks) = Inr ([], ct, rt) \<longrightarrow>
        while_remaining_tasks
          (parallel_groups, stage, (task_id, task) # remaining_tasks, completed_tasks) =
        while_remaining_tasks
          (dict_set parallel_groups (stage_key stage) [task_id], stage + 1, remaining_tasks,
           insert task_id completed_tasks)
        \<and> (distinct (map fst ((task_id, task) # remaining_tasks))
             \<and> fst ` set parallel_groups \<subseteq> stage_key ` {..<stage} \<longrightarrow>
           (\<exists>later. while_remaining_tasks
              (parallel_groups, stage, (task_id, task) # remaining_tasks, completed_tasks) =
              Inr (parallel_groups @ (stage_key stage, [task_id]) # later))))
   \<and> (scan_executions ((exec_id, execution) # remaining_executions)
          ([], completed_executions, (exec_id, execution) # remaining_executions) =
          Inr ([], ce, re) \<longrightarrow>
        while_remaining_executions
          (parallel_groups, stage, (exec_id, execution) # remaining_executions,
           completed_executions) =
        while_remaining_executions
          (dict_set parallel_groups (stage_key stage) [exec_id], stage + 1,
           remaining_executions, insert exec_id completed_executions)
        \<and> (distinct (map fst ((exec_id, execution) # remaining_executions))
             \<and> fst ` set parallel_groups \<subseteq> stage_key ` {..<stage} \<longrightarrow>
           (\<exists>later. while_remaining_executions
              (parallel_groups, stage, (exec_id, execution) # remaining_executions,
               completed_executions) =
              Inr (parallel_groups @ (stage_key stage, [exec_id]) # later))))"
proof (intro conjI impI)
  show "\<exists>groups. identify_parallel_opportunities tasks = Inr groups"
    using identify_result [of tasks] by blast
  show "\<exists>groups. calculate_parallel_groups executions = Inr groups"
    using calculate_result [of executions] by blast
next
  assume a: "identify_parallel_opportunities tasks = Inr task_groups
        \<and> filter (\<lambda>kv. fst kv \<notin> set (concat (map snd (take k task_groups))))
             (tasks_by_id tasks) = (next_id, next_task) # other_tasks
        \<and> scan_tasks ((next_id, next_task) # other_tasks)
             ([], set (concat (map snd (take k task_groups))), (next_id, next_task) # other_tasks) =
             Inr ([], c1, r1)"
  from identify_forced [OF a [THEN conjunct1] a [THEN conjunct2, THEN conjunct1]
      a [THEN conjunct2, THEN conjunct2]]
  show "k < length task_groups" and "task_groups ! k = (stage_key k, [next_id])"
    by blast+
next
  assume a: "calculate_parallel_groups executions = Inr execution_groups
        \<and> filter (\<lambda>kv. fst kv \<notin> set (concat (map snd (take n execution_groups))))
             (executions_by_id executions) = (next_exec_id, next_execution) # other_executions
        \<and> scan_executions ((next_exec_id, next_execution) # other_executions)
             ([], set (concat (map snd (take n execution_groups))),
              (next_exec_id, next_execution) # other_executions) =
             Inr ([], c2, r2)"
  from calculate_forced [OF a [THEN conjunct1] a [THEN conjunct2, THEN conjunct1]
      a [THEN conjunct2, THEN conjunct2]]
  show "n < length execution_groups"
    and "execution_groups ! n = (stage_key n, [next_exec_id])"
    by blast+
next
  assume "scan_tasks ((task_id, task) # remaining_tasks)
          ([], completed_tasks, (task_id, task) # remaining_tasks) = Inr ([], ct, rt)"
  from forced_task [OF this]
  show "while_remaining_tasks
          (parallel_groups, stage, (task_id, task) # remaining_tasks, completed_tasks) =
        while_remaining_tasks
          (dict_set parallel_groups (stage_key stage) [task_id], stage + 1, remaining_tasks,
           insert task_id completed_tasks)" by simp
next
  assume "scan_tasks ((task_id, task) # remaining_tasks)
          ([], completed_tasks, (task_id, task) # remaining_tasks) = Inr ([], ct, rt)"
    and "distinct (map fst ((task_id, task) # remaining_tasks))
             \<and> fst ` set parallel_groups \<subseteq> stage_key ` {..<stage}"
  then show "\<exists>later. while_remaining_tasks
              (parallel_groups, stage, (task_id, task) # remaining_tasks, completed_tasks) =
              Inr (parallel_groups @ (stage_key stage, [task_id]) # later)"
    by (intro forced_task_result) simp_all
next
  assume "scan_executions ((exec_id, execution) # remaining_executions)
          ([], completed_executions, (exec_id, execution) # remaining_executions) =
          Inr ([], ce, re)"
  from forced_execution [OF this]
  show "while_remaining_executions
          (parallel_groups, stage, (exec_id, execution) # remaining_executions,
           completed_executions) =
        while_remaining_executions
          (dict_set parallel_groups (stage_key stage) [exec_id], stage + 1,
           remaining_executions, insert exec_id completed_executions)" by simp
next
  assume "scan_executions ((exec_id, execution) # remaining_executions)
          ([], completed_executions, (exec_id, execution) # remaining_executions) =
          Inr ([], ce, re)"
    and "distinct (map fst ((exec_id, execution) # remaining_executions))
             \<and> fst ` set parallel_groups \<subseteq> stage_key ` {..<stage}"
  then show "\<exists>later. while_remaining_executions
              (parallel_groups, stage, (exec_id, execution) # remaining_executions,
               completed_executions) =
              Inr (parallel_groups @ (stage_key stage, [exec_id]) # later)"
    by (intro forced_execution_result) simp_all
qed

theorem no_error_and_forced_singleton_witness:
  "(\<exists>groups. identify_parallel_opportunities
       [new_task ''x'' [], new_task ''A'' [''B''], new_task ''B'' [''A'']] = Inr groups)
   \<and> (\<exists>groups. calculate_parallel_groups
       [new_execution ''x'' RESEARCH [], new_execution ''A'' RESEARCH [''B''],
      new_execution ''B'' RESEARCH [''A'']] = Inr groups)
   \<and> (identify_parallel_opportunities
       [new_task ''x'' [], new_task ''A'' [''B''], new_task ''B'' [''A'']] =
       Inr [(''stage_0'', [''x'']), (''stage_1'', [''A'']), (''stage_2'', [''B''])]
     \<and> filter (\<lambda>kv. fst kv \<notin> set (concat (map snd (take 1
           [(''stage_0'', [''x'']), (''stage_1'', [''A'']), (''stage_2'', [''B''])]))))
         (tasks_by_id [new_task ''x'' [], new_task ''A'' [''B''], new_task ''B'' [''A'']]) =
         (''A'', new_task ''A'' [''B'']) # [(''B'', new_task ''B'' [''A''])]
     \<and> scan_tasks ((''A'', new_task ''A'' [''B'']) # [(''B'', new_task ''B'' [''A''])])
         ([], set (concat (map snd (take 1
            [(''stage_0'', [''x'']), (''stage_1'', [''A'']), (''stage_2'', [''B''])]))),
          (''A'', new_task ''A'' [''B'']) # [(''B'', new_task ''B'' [''A''])]) =
         Inr ([], {''x''}, [(''A'', new_task ''A'' [''B'']), (''B'', new_task ''B'' [''A''])]))
   \<and> (1 < length [(''stage_0'', [''x'']), (''stage_1'', [''A'']), (''stage_2'', [''B''])]
     \<and> [(''stage_0'', [''x'']), (''stage_1'', [''A'']), (''stage_2'', [''B''])] ! 1 =
         (stage_key 1, [''A'']))
   \<and> (calculate_parallel_groups
       [new_execution ''x'' RESEARCH [], new_execution ''A'' RESEARCH [''B''],
      new_execution ''B'' RESEARCH [''A'']] =
       Inr [(''stage_0'', [''x'']), (''stage_1'', [''A'']), (''stage_2'', [''B''])]
     \<and> filter (\<lambda>kv. fst kv \<notin> set (concat (map snd (take 1
           [(''stage_0'', [''x'']), (''stage_1'', [''A'']), (''stage_2'', [''B''])]))))
         (executions_by_id
           [new_execution ''x'' RESEARCH [], new_execution ''A'' RESEARCH [''B''],
      new_execution ''B'' RESEARCH [''A'']]) =
         (''A'', new_execution ''A'' RESEARCH [''B'']) # [(''B'', new_execution ''B'' RESEARCH [''A''])]
     \<and> scan_executions ((''A'', new_execution ''A'' RESEARCH [''B'']) # [(''B'', new_execution ''B'' RESEARCH [''A''])])
         ([], set (concat (map snd (take 1
            [(''stage_0'', [''x'']), (''stage_1'', [''A'']), (''stage_2'', [''B''])]))),
          (''A'', new_execution ''A'' RESEARCH [''B'']) # [(''B'', new_execution ''B'' RESEARCH [''A''])]) =
         Inr ([], {''x''}, [(''A'', new_execution ''A'' RESEARCH [''B'']), (''B'', new_execution ''B'' RESEARCH [''A''])]))
   \<and> (1 < length [(''stage_0'', [''x'']), (''stage_1'', [''A'']), (''stage_2'', [''B''])]
     \<and> [(''stage_0'', [''x'']), (''stage_1'', [''A'']), (''stage_2'', [''B''])] ! 1 =
         (stage_key 1, [''A'']))
   \<and> scan_tasks ((''A'', new_task ''A'' [''B'']) # [(''B'', new_task ''B'' [''A''])])
         ([], {}, (''A'', new_task ''A'' [''B'']) # [(''B'', new_task ''B'' [''A''])]) =
       Inr ([], {}, [(''A'', new_task ''A'' [''B'']), (''B'', new_task ''B'' [''A''])])
   \<and> (distinct (map fst ((''A'', new_task ''A'' [''B'']) # [(''B'', new_task ''B'' [''A''])]))
     \<and> fst ` set ([] :: (string, string list) dict) \<subseteq> stage_key ` {..<0})
   \<and> while_remaining_tasks
         ([], 0, (''A'', new_task ''A'' [''B'']) # [(''B'', new_task ''B'' [''A''])], {}) =
       while_remaining_tasks
         (dict_set [] (stage_key 0) [''A''], 0 + 1, [(''B'', new_task ''B'' [''A''])], insert ''A'' {})
   \<and> (\<exists>later. while_remaining_tasks
         ([], 0, (''A'', new_task ''A'' [''B'']) # [(''B'', new_task ''B'' [''A''])], {}) =
         Inr ([] @ (stage_key 0, [''A'']) # later))
   \<and> scan_executions ((''A'', new_execution ''A'' RESEARCH [''B'']) # [(''B'', new_execution ''B'' RESEARCH [''A''])])
         ([], {}, (''A'', new_execution ''A'' RESEARCH [''B'']) # [(''B'', new_execution ''B'' RESEARCH [''A''])]) =
       Inr ([], {}, [(''A'', new_execution ''A'' RESEARCH [''B'']), (''B'', new_execution ''B'' RESEARCH [''A''])])
   \<and> (distinct (map fst ((''A'', new_execution ''A'' RESEARCH [''B'']) # [(''B'', new_execution ''B'' RESEARCH [''A''])]))
     \<and> fst ` set ([] :: (string, string list) dict) \<subseteq> stage_key ` {..<0})
   \<and> while_remaining_executions
         ([], 0, (''A'', new_execution ''A'' RESEARCH [''B'']) # [(''B'', new_execution ''B'' RESEARCH [''A''])], {}) =
       while_remaining_executions
         (dict_set [] (stage_key 0) [''A''], 0 + 1, [(''B'', new_execution ''B'' RESEARCH [''A''])], insert ''A'' {})
   \<and> (\<exists>later. while_remaining_executions
         ([], 0, (''A'', new_execution ''A'' RESEARCH [''B'']) # [(''B'', new_execution ''B'' RESEARCH [''A''])], {}) =
         Inr ([] @ (stage_key 0, [''A'']) # later))"
proof -
  have ht: "identify_parallel_opportunities
       [new_task ''x'' [], new_task ''A'' [''B''], new_task ''B'' [''A'']] =
       Inr [(''stage_0'', [''x'']), (''stage_1'', [''A'']), (''stage_2'', [''B''])]
     \<and> filter (\<lambda>kv. fst kv \<notin> set (concat (map snd (take 1
           [(''stage_0'', [''x'']), (''stage_1'', [''A'']), (''stage_2'', [''B''])]))))
         (tasks_by_id [new_task ''x'' [], new_task ''A'' [''B''], new_task ''B'' [''A'']]) =
         (''A'', new_task ''A'' [''B'']) # [(''B'', new_task ''B'' [''A''])]
     \<and> scan_tasks ((''A'', new_task ''A'' [''B'']) # [(''B'', new_task ''B'' [''A''])])
         ([], set (concat (map snd (take 1
            [(''stage_0'', [''x'']), (''stage_1'', [''A'']), (''stage_2'', [''B''])]))),
          (''A'', new_task ''A'' [''B'']) # [(''B'', new_task ''B'' [''A''])]) =
         Inr ([], {''x''}, [(''A'', new_task ''A'' [''B'']), (''B'', new_task ''B'' [''A''])])"
    by (simp add: run_simps digit_char_Suc_Suc_0 new_task_def)
  have he: "calculate_parallel_groups
       [new_execution ''x'' RESEARCH [], new_execution ''A'' RESEARCH [''B''],
      new_execution ''B'' RESEARCH [''A'']] =
       Inr [(''stage_0'', [''x'']), (''stage_1'', [''A'']), (''stage_2'', [''B''])]
     \<and> filter (\<lambda>kv. fst kv \<notin> set (concat (map snd (take 1
           [(''stage_0'', [''x'']), (''stage_1'', [''A'']), (''stage_2'', [''B''])]))))
         (executions_by_id
           [new_execution ''x'' RESEARCH [], new_execution ''A'' RESEARCH [''B''],
      new_execution ''B'' RESEARCH [''A'']]) =
         (''A'', new_execution ''A'' RESEARCH [''B'']) # [(''B'', new_execution ''B'' RESEARCH [''A''])]
     \<and> scan_executions ((''A'', new_execution ''A'' RESEARCH [''B'']) # [(''B'', new_execution ''B'' RESEARCH [''A''])])
         ([], set (concat (map snd (take 1
            [(''stage_0'', [''x'']), (''stage_1'', [''A'']), (''stage_2'', [''B''])]))),
          (''A'', new_execution ''A'' RESEARCH [''B'']) # [(''B'', new_execution ''B'' RESEARCH [''A''])]) =
         Inr ([], {''x''}, [(''A'', new_execution ''A'' RESEARCH [''B'']), (''B'', new_execution ''B'' RESEARCH [''A''])])"
    by (simp add: run_simps digit_char_Suc_Suc_0 new_execution_def)
  have st: "scan_tasks ((''A'', new_task ''A'' [''B'']) # [(''B'', new_task ''B'' [''A''])])
         ([], {}, (''A'', new_task ''A'' [''B'']) # [(''B'', new_task ''B'' [''A''])]) =
       Inr ([], {}, [(''A'', new_task ''A'' [''B'']), (''B'', new_task ''B'' [''A''])])"
    by (simp add: new_task_def)
  have se: "scan_executions ((''A'', new_execution ''A'' RESEARCH [''B'']) # [(''B'', new_execution ''B'' RESEARCH [''A''])])
         ([], {}, (''A'', new_execution ''A'' RESEARCH [''B'']) # [(''B'', new_execution ''B'' RESEARCH [''A''])]) =
       Inr ([], {}, [(''A'', new_execution ''A'' RESEARCH [''B'']), (''B'', new_execution ''B'' RESEARCH [''A''])])"
    by (simp add: new_execution_def)
  have dt: "distinct (map fst ((''A'', new_task ''A'' [''B'']) # [(''B'', new_task ''B'' [''A''])]))
     \<and> fst ` set ([] :: (string, string list) dict) \<subseteq> stage_key ` {..<0}"
    by simp
  have de: "distinct (map fst ((''A'', new_execution ''A'' RESEARCH [''B'']) # [(''B'', new_execution ''B'' RESEARCH [''A''])]))
     \<and> fst ` set ([] :: (string, string list) dict) \<subseteq> stage_key ` {..<0}"
    by simp
  note w = no_error_and_forced_singleton
    [where tasks = "[new_task ''x'' [], new_task ''A'' [''B''], new_task ''B'' [''A'']]"
       and executions = "[new_execution ''x'' RESEARCH [], new_execution ''A'' RESEARCH [''B''],
      new_execution ''B'' RESEARCH [''A'']]"
       and task_groups = "[(''stage_0'', [''x'']), (''stage_1'', [''A'']), (''stage_2'', [''B''])]"
       and k = 1 and next_id = "''A''" and next_task = "new_task ''A'' [''B'']"
       and other_tasks = "[(''B'', new_task ''B'' [''A''])]" and ?c1.0 = "{''x''}"
       and ?r1.0 = "[(''A'', new_task ''A'' [''B'']), (''B'', new_task ''B'' [''A''])]"
       and execution_groups = "[(''stage_0'', [''x'']), (''stage_1'', [''A'']), (''stage_2'', [''B''])]"
       and n = 1 and next_exec_id = "''A''" and next_execution = "new_execution ''A'' RESEARCH [''B'']"
       and other_executions = "[(''B'', new_execution ''B'' RESEARCH [''A''])]" and ?c2.0 = "{''x''}"
       and ?r2.0 = "[(''A'', new_execution ''A'' RESEARCH [''B'']), (''B'', new_execution ''B'' RESEARCH [''A''])]"
       and task_id = "''A''" and task = "new_task ''A'' [''B'']"
       and remaining_tasks = "[(''B'', new_task ''B'' [''A''])]" and completed_tasks = "{}"
       and ct = "{}" and rt = "[(''A'', new_task ''A'' [''B'']), (''B'', new_task ''B'' [''A''])]"
       and parallel_groups = "[]" and stage = 0
       and exec_id = "''A''" and execution = "new_execution ''A'' RESEARCH [''B'']"
       and remaining_executions = "[(''B'', new_execution ''B'' RESEARCH [''A''])]"
       and completed_executions = "{}" and ce = "{}"
       and re = "[(''A'', new_execution ''A'' RESEARCH [''B'']), (''B'', new_execution ''B'' RESEARCH [''A''])]"]
  note w1 = w [THEN conjunct1]
  note w2 = w [THEN conjunct2, THEN conjunct1]
  note w3 = w [THEN conjunct2, THEN conjunct2, THEN conjunct1, rule_format, OF ht]
  note w4 = w [THEN conjunct2, THEN conjunct2, THEN conjunct2, THEN conjunct1, rule_format, OF he]
  note w5 = w [THEN conjunct2, THEN conjunct2, THEN conjunct2, THEN conjunct2, THEN conjunct1,
    rule_format, OF st]
  note w6 = w [THEN conjunct2, THEN conjunct2, THEN conjunct2, THEN conjunct2, THEN conjunct2,
    rule_format, OF se]
  note w5a = w5 [THEN conjunct1]
  note w5b = w5 [THEN conjunct2, rule_format, OF dt]
  note w6a = w6 [THEN conjunct1]
  note w6b = w6 [THEN conjunct2, rule_format, OF de]
  from w1 w2 ht w3 he w4 st dt w5a w5b se de w6a w6b show ?thesis
    by (elim conjE, intro conjI) assumption+
qed

section \<open>A cycle of two items\<close>

text \<open>
  C5. For two items with different ids, each depending on exactly the other, both
  partitioners return, without an error, two stages: the first item alone under
  \<open>stage_0\<close>, the second alone under \<open>stage_1\<close>.
\<close>

theorem two_item_cycle:
  "(id_task A \<noteq> id_task B \<and> dependencies A = [id_task B] \<and> dependencies B = [id_task A] \<longrightarrow>
      identify_parallel_opportunities [A, B] =
        Inr [(''stage_0'', [id_task A]), (''stage_1'', [id_task B])])
   \<and> (id_exec X \<noteq> id_exec Y \<and> dependencies_exec X = [id_exec Y]
        \<and> dependencies_exec Y = [id_exec X] \<longrightarrow>
      calculate_parallel_groups [X, Y] =
        Inr [(''stage_0'', [id_exec X]), (''stage_1'', [id_exec Y])])"
  by (simp add: run_simps)

theorem two_item_cycle_witness:
  "id_task (new_task ''A'' [''B'']) \<noteq> id_task (new_task ''B'' [''A''])
   \<and> dependencies (new_task ''A'' [''B'']) = [id_task (new_task ''B'' [''A''])]
   \<and> dependencies (new_task ''B'' [''A'']) = [id_task (new_task ''A'' [''B''])]
   \<and> identify_parallel_opportunities [new_task ''A'' [''B''], new_task ''B'' [''A'']] =
        Inr [(''stage_0'', [''A'']), (''stage_1'', [''B''])]
   \<and> id_exec (new_execution ''A'' RESEARCH [''B'']) \<noteq> id_exec (new_execution ''B'' RESEARCH [''A''])
   \<and> dependencies_exec (new_execution ''A'' RESEARCH [''B'']) =
        [id_exec (new_execution ''B'' RESEARCH [''A''])]
   \<and> dependencies_exec (new_execution ''B'' RESEARCH [''A'']) =
        [id_exec (new_execution ''A'' RESEARCH [''B''])]
   \<and> calculate_parallel_groups
        [new_execution ''A'' RESEARCH [''B''], new_execution ''B'' RESEARCH [''A'']] =
        Inr [(''stage_0'', [''A'']), (''stage_1'', [''B''])]"
  using two_item_cycle [of "new_task ''A'' [''B'']" "new_task ''B'' [''A'']"
      "new_execution ''A'' RESEARCH [''B'']" "new_execution ''B'' RESEARCH [''A'']"]
  by (simp add: new_task_def new_execution_def)

section \<open>The two copies of the partitioner\<close>

text \<open>
  C6. On inputs with the same ids and the same dependency lists in the same order,
  \<open>_calculate_parallel_groups\<close> and \<open>identify_parallel_opportunities\<close> return the same
  mapping from stage keys to id lists (or the same error).
\<close>

theorem both_partitioners_agree:
  "map id_exec executions = map id_task tasks \<Longrightarrow>
   map dependencies_exec executions = map dependencies tasks \<Longrightarrow>
   calculate_parallel_groups executions = identify_parallel_opportunities tasks"
  by (rule calculate_eq_identify)

theorem both_partitioners_agree_witness:
  "map id_exec example_executions =
     map id_task [new_task ''locate-auth'' [], new_task ''analyze-auth'' [''locate-auth''],
       new_task ''research-jwt'' [], new_task ''synthesize'' [''analyze-auth'', ''research-jwt'']]
   \<and> map dependencies_exec example_executions =
     map dependencies [new_task ''locate-auth'' [], new_task ''analyze-auth'' [''locate-auth''],
       new_task ''research-jwt'' [], new_task ''synthesize'' [''analyze-auth'', ''research-jwt'']]
   \<and> calculate_parallel_groups example_executions =
     identify_parallel_opportunities
       [new_task ''locate-auth'' [], new_task ''analyze-auth'' [''locate-auth''],
        new_task ''research-jwt'' [], new_task ''synthesize'' [''analyze-auth'', ''research-jwt'']]"
proof -
  let ?ts = "[new_task ''locate-auth'' [], new_task ''analyze-auth'' [''locate-auth''],
       new_task ''research-jwt'' [], new_task ''synthesize'' [''analyze-auth'', ''research-jwt'']]"
  have i: "map id_exec example_executions = map id_task ?ts"
    by (simp add: example_executions_def new_execution_def new_task_def)
  have d: "map dependencies_exec example_executions = map dependencies ?ts"
    by (simp add: example_executions_def new_execution_def new_task_def)
  from i d both_partitioners_agree [OF i d] show ?thesis by (intro conjI)
qed

section \<open>Dependencies inside one stage\<close>

text \<open>
  C1. The claim asks for every item to lie in a later stage than each of its dependencies.
  The scan adds an id to the completed set as soon as it is placed, so an item that
  follows its dependencies in the input joins their stage. On the task list that
  \<open>generate_execution_plan\<close> builds, \<open>auth-5\<close> shares \<open>stage_0\<close> with the three
  tasks it depends on; on the executions of the example in \<open>orchestrator.py\<close>,
  \<open>analyze-auth\<close> and \<open>synthesize\<close> share \<open>stage_0\<close> with their dependencies.
\<close>

theorem dependent_items_share_a_stage:
  "identify_parallel_opportunities auth_tasks =
     Inr [(''stage_0'', [''auth-1'', ''auth-2'', ''auth-3'', ''auth-4'', ''auth-5''])]
   \<and> calculate_parallel_groups example_executions =
     Inr [(''stage_0'', [''locate-auth'', ''analyze-auth'', ''research-jwt'', ''synthesize''])]"
  by (simp add: run_simps auth_tasks_def example_executions_def new_execution_def)

text \<open>
  C2. The claim expects the stages \<open>{a}\<close>, \<open>{b, c}\<close>, \<open>{d}\<close> for the items
  \<open>a\<close>, \<open>b\<close> (after \<open>a\<close>), \<open>c\<close> (after \<open>a\<close>), \<open>d\<close> (after \<open>b\<close> and
  \<open>c\<close>) given in this order. Both partitioners return the single stage
  \<open>[a, b, c, d]\<close>.
\<close>

theorem diamond_is_one_stage:
  "identify_parallel_opportunities
     [new_task ''a'' [], new_task ''b'' [''a''], new_task ''c'' [''a''],
      new_task ''d'' [''b'', ''c'']] =
     Inr [(''stage_0'', [''a'', ''b'', ''c'', ''d''])]
   \<and> calculate_parallel_groups
     [new_execution ''a'' GENERAL_PURPOSE [], new_execution ''b'' GENERAL_PURPOSE [''a''],
      new_execution ''c'' GENERAL_PURPOSE [''a''],
      new_execution ''d'' GENERAL_PURPOSE [''b'', ''c'']] =
     Inr [(''stage_0'', [''a'', ''b'', ''c'', ''d''])]"
  by (simp add: run_simps new_task_def new_execution_def)

section \<open>Items without dependencies\<close>

lemma ready_ids_no_dependencies:
  "list_all (\<lambda>kd. snd kd = []) items \<Longrightarrow> ready_ids items c = map fst items"
  by (induction items c rule: ready_ids.induct) simp_all

lemma identify_no_dependencies:
  assumes ne: "tasks \<noteq> []" and d: "distinct (map id_task tasks)"
    and nd: "list_all (\<lambda>task. dependencies task = []) tasks"
  shows "identify_parallel_opportunities tasks = Inr [(''stage_0'', map id_task tasks)]"
proof -
  let ?r = "tasks_by_id tasks"
  have r: "?r = map (\<lambda>t. (id_task t, t)) tasks" using d by (rule tasks_by_id_unique)
  have keys: "map fst ?r = map id_task tasks" using d by (rule tasks_by_id_keys)
  have rne: "?r \<noteq> []" using ne r by simp
  have "list_all (\<lambda>kd. snd kd = []) (task_deps ?r)"
    using nd unfolding r by (simp add: task_deps_def list_all_iff)
  then have "ready_ids (task_deps ?r) {} = map fst (task_deps ?r)"
    by (rule ready_ids_no_dependencies)
  then have p: "ready_ids (task_deps ?r) {} = map id_task tasks"
    by (simp only: task_deps_keys keys)
  have pne: "map id_task tasks \<noteq> []" using ne by simp
  have f: "filter (\<lambda>kv. fst kv \<notin> set (map id_task tasks)) ?r = []"
    unfolding keys [symmetric] by (simp add: filter_empty_conv)
  have "while_remaining_tasks ([], 0, ?r, {}) =
      while_remaining_tasks
        (dict_set [] (stage_key 0) (map id_task tasks), Suc 0, [], {} \<union> set (map id_task tasks))"
    by (subst while_remaining_tasks_step [OF tasks_by_id_distinct rne])
       (simp only: p pne f not_False_eq_True if_True)
  also have "\<dots> = Inr (dict_set [] (stage_key 0) (map id_task tasks))"
    by (subst while_remaining_tasks.simps) simp
  also have "dict_set [] (stage_key 0) (map id_task tasks) = [(''stage_0'', map id_task tasks)]"
    by (simp add: stage_key_def str_of_nat.simps digit_char_values)
  finally show ?thesis unfolding identify_parallel_opportunities_def .
qed

lemma calculate_no_dependencies:
  assumes ne: "executions \<noteq> []" and d: "distinct (map id_exec executions)"
    and nd: "list_all (\<lambda>execution. dependencies_exec execution = []) executions"
  shows "calculate_parallel_groups executions = Inr [(''stage_0'', map id_exec executions)]"
proof -
  from calculate_as_identify obtain tasks where
    t: "map id_task tasks = map id_exec executions"
      "map dependencies tasks = map dependencies_exec executions"
      "calculate_parallel_groups executions = identify_parallel_opportunities tasks"
    by blast
  from t(1) ne have "tasks \<noteq> []" by auto
  moreover from t(1) d have "distinct (map id_task tasks)" by simp
  moreover have "list_all (\<lambda>task. dependencies task = []) tasks"
  proof -
    have "list_all (\<lambda>ds. ds = []) (map dependencies_exec executions)"
      using nd by (simp add: list_all_iff)
    then have "list_all (\<lambda>ds. ds = []) (map dependencies tasks)" by (simp only: t(2))
    then show ?thesis by (simp add: list_all_iff)
  qed
  ultimately have "identify_parallel_opportunities tasks = Inr [(''stage_0'', map id_task tasks)]"
    by (rule identify_no_dependencies)
  then show ?thesis by (simp only: t(1) t(3))
qed

text \<open>
  The empty input has pairwise-distinct ids and only empty dependency lists, and both
  partitioners return the empty mapping for it: no stage, where C9 as stated asks for
  exactly one.
\<close>

theorem no_dependencies_counterexample:
  "distinct (map id_task []) \<and> list_all (\<lambda>task. dependencies task = []) []
   \<and> identify_parallel_opportunities [] = Inr []
   \<and> identify_parallel_opportunities [] \<noteq> Inr [(''stage_0'', map id_task [])]
   \<and> distinct (map id_exec []) \<and> list_all (\<lambda>execution. dependencies_exec execution = []) []
   \<and> calculate_parallel_groups [] = Inr []
   \<and> calculate_parallel_groups [] \<noteq> Inr [(''stage_0'', map id_exec [])]"
  by (simp add: run_simps)

text \<open>
  C9, amended. For every non-empty input with pairwise-distinct ids in which every
  dependency list is empty, both partitioners return exactly one stage, \<open>stage_0\<close>,
  holding all ids (in input order).
\<close>

theorem no_dependencies_one_stage:
  "(tasks \<noteq> [] \<and> distinct (map id_task tasks)
      \<and> list_all (\<lambda>task. dependencies task = []) tasks \<longrightarrow>
      identify_parallel_opportunities tasks = Inr [(''stage_0'', map id_task tasks)])
   \<and> (executions \<noteq> [] \<and> distinct (map id_exec executions)
      \<and> list_all (\<lambda>execution. dependencies_exec execution = []) executions \<longrightarrow>
      calculate_parallel_groups executions = Inr [(''stage_0'', map id_exec executions)])"
  using identify_no_dependencies [of tasks] calculate_no_dependencies [of executions] by blast

theorem no_dependencies_one_stage_witness:
  "[new_task ''x'' [], new_task ''y'' [], new_task ''z'' []] \<noteq> []
   \<and> distinct (map id_task [new_task ''x'' [], new_task ''y'' [], new_task ''z'' []])
   \<and> list_all (\<lambda>task. dependencies task = [])
        [new_task ''x'' [], new_task ''y'' [], new_task ''z'' []]
   \<and> identify_parallel_opportunities [new_task ''x'' [], new_task ''y'' [], new_task ''z'' []] =
        Inr [(''stage_0'', [''x'', ''y'', ''z''])]
   \<and> [new_execution ''x'' RESEARCH [], new_execution ''y'' RESEARCH []] \<noteq> []
   \<and> distinct (map id_exec [new_execution ''x'' RESEARCH [], new_execution ''y'' RESEARCH []])
   \<and> list_all (\<lambda>execution. dependencies_exec execution = [])
        [new_execution ''x'' RESEARCH [], new_execution ''y'' RESEARCH []]
   \<and> calculate_parallel_groups [new_execution ''x'' RESEARCH [], new_execution ''y'' RESEARCH []] =
        Inr [(''stage_0'', [''x'', ''y''])]"
  using no_dependencies_one_stage
    [of "[new_task ''x'' [], new_task ''y'' [], new_task ''z'' []]"
        "[new_execution ''x'' RESEARCH [], new_execution ''y'' RESEARCH []]"]
  by (simp add: new_task_def new_execution_def)

section \<open>The frame of update_task_status\<close>

lemma update_matched_task_cases:
  "(log_entry \<noteq> [] \<and> (\<exists>v. dict_get task ''log'' = Some v \<and> (\<forall>entries. v \<noteq> PList entries))
      \<and> update_matched_task new_status log_entry updated_at timestamp task = Inl AttributeError)
   \<or> (\<exists>task'. update_matched_task new_status log_entry updated_at timestamp task = Inr task'
        \<and> dict_get task' ''status'' = Some (PStr new_status)
        \<and> dict_get task' ''updated_at'' = Some (PStr updated_at)
        \<and> (\<forall>k. k \<noteq> ''status'' \<and> k \<noteq> ''updated_at'' \<and> k \<noteq> ''log'' \<longrightarrow>
               dict_get task' k = dict_get task k)
        \<and> (if log_entry = [] then dict_get task' ''log'' = dict_get task ''log''
            else \<exists>entries.
              (dict_get task ''log'' = None \<and> entries = []
                 \<or> dict_get task ''log'' = Some (PList entries))
              \<and> dict_get task' ''log'' =
                  Some (PList (entries @
                    [PDict [(''timestamp'', PStr timestamp), (''entry'', PStr log_entry)]]))))"
proof (cases "log_entry = []")
  case True
  then show ?thesis by (simp add: update_matched_task_def Let_def dict_get_set)
next
  case False
  show ?thesis
  proof (cases "dict_get task ''log''")
    case None
    with False show ?thesis by (simp add: update_matched_task_def Let_def dict_get_set)
  next
    case (Some v)
    show ?thesis
    proof (cases "\<exists>entries. v = PList entries")
      case True
      then obtain entries where "v = PList entries" by blast
      with False Some show ?thesis
        by (simp add: update_matched_task_def Let_def dict_get_set)
    next
      case nl: False
      with False Some show ?thesis
        by (cases v) (simp_all add: update_matched_task_def Let_def dict_get_set)
    qed
  qed
qed

lemma update_todos_no_match:
  "list_all (\<lambda>task. dict_get task ''id'' \<noteq> Some (PStr task_id)) todos \<Longrightarrow>
     update_todos task_id new_status log_entry updated_at timestamp todos = Inr todos"
  by (induction todos) simp_all

lemma update_todos_first_match:
  "list_all (\<lambda>task. dict_get task ''id'' \<noteq> Some (PStr task_id)) before \<Longrightarrow>
   dict_get task ''id'' = Some (PStr task_id) \<Longrightarrow>
     update_todos task_id new_status log_entry updated_at timestamp (before @ task # after) =
       (case update_matched_task new_status log_entry updated_at timestamp task of
          Inl e \<Rightarrow> Inl e
        | Inr task' \<Rightarrow> Inr (before @ task' # after))"
  by (induction before) (simp_all split: sum.splits)


text \<open>
  C10. On the loaded list, \<open>update_task_status\<close> changes at most the first record
  whose \<open>id\<close> is the given \<open>task_id\<close>. If no record matches, the list is written
  back as loaded. Otherwise either the call raises before anything is written (a
  non-empty \<open>log_entry\<close> and a stored \<open>log\<close> that is not a list), or the list is
  written back with every other record as it was and, in the matched record,
  \<open>status\<close> and \<open>updated_at\<close> set, one entry appended to \<open>log\<close> when
  \<open>log_entry\<close> is non-empty (\<open>log\<close> untouched when it is empty), and every other key
  unchanged.
\<close>

theorem update_task_status_frame:
  "(list_all (\<lambda>task. dict_get task ''id'' \<noteq> Some (PStr task_id)) (load_todos todos_file) \<longrightarrow>
      update_task_status todos_file task_id new_status log_entry updated_at timestamp =
        Inr (Some (load_todos todos_file)))
   \<and> (load_todos todos_file = before @ task # after
        \<and> list_all (\<lambda>task. dict_get task ''id'' \<noteq> Some (PStr task_id)) before
        \<and> dict_get task ''id'' = Some (PStr task_id) \<longrightarrow>
      (log_entry \<noteq> []
         \<and> (\<exists>v. dict_get task ''log'' = Some v \<and> (\<forall>entries. v \<noteq> PList entries))
         \<and> update_task_status todos_file task_id new_status log_entry updated_at timestamp =
             Inl AttributeError)
      \<or> (\<exists>task'.
            update_task_status todos_file task_id new_status log_entry updated_at timestamp =
              Inr (Some (before @ task' # after))
          \<and> dict_get task' ''status'' = Some (PStr new_status)
          \<and> dict_get task' ''updated_at'' = Some (PStr updated_at)
          \<and> (\<forall>k. k \<noteq> ''status'' \<and> k \<noteq> ''updated_at'' \<and> k \<noteq> ''log'' \<longrightarrow>
                 dict_get task' k = dict_get task k)
          \<and> (if log_entry = [] then dict_get task' ''log'' = dict_get task ''log''
              else \<exists>entries.
                (dict_get task ''log'' = None \<and> entries = []
                   \<or> dict_get task ''log'' = Some (PList entries))
                \<and> dict_get task' ''log'' =
                    Some (PList (entries @
                      [PDict [(''timestamp'', PStr timestamp), (''entry'', PStr log_entry)]])))))"
proof (intro conjI impI)
  assume "list_all (\<lambda>task. dict_get task ''id'' \<noteq> Some (PStr task_id)) (load_todos todos_file)"
  then show "update_task_status todos_file task_id new_status log_entry updated_at timestamp =
        Inr (Some (load_todos todos_file))"
    by (simp add: update_task_status_def update_todos_no_match save_todos_def)
next
  assume a: "load_todos todos_file = before @ task # after
        \<and> list_all (\<lambda>task. dict_get task ''id'' \<noteq> Some (PStr task_id)) before
        \<and> dict_get task ''id'' = Some (PStr task_id)"
  then have u: "update_task_status todos_file task_id new_status log_entry updated_at timestamp =
      (case update_matched_task new_status log_entry updated_at timestamp task of
         Inl e \<Rightarrow> Inl e
       | Inr task' \<Rightarrow> Inr (Some (before @ task' # after)))"
    by (simp add: update_task_status_def update_todos_first_match save_todos_def
        split: sum.splits)
  show "(log_entry \<noteq> []
         \<and> (\<exists>v. dict_get task ''log'' = Some v \<and> (\<forall>entries. v \<noteq> PList entries))
         \<and> update_task_status todos_file task_id new_status log_entry updated_at timestamp =
             Inl AttributeError)
      \<or> (\<exists>task'.
            update_task_status todos_file task_id new_status log_entry updated_at timestamp =
              Inr (Some (before @ task' # after))
          \<and> dict_get task' ''status'' = Some (PStr new_status)
          \<and> dict_get task' ''updated_at'' = Some (PStr updated_at)
          \<and> (\<forall>k. k \<noteq> ''status'' \<and> k \<noteq> ''updated_at'' \<and> k \<noteq> ''log'' \<longrightarrow>
                 dict_get task' k = dict_get task k)
          \<and> (if log_entry = [] then dict_get task' ''log'' = dict_get task ''log''
              else \<exists>entries.
                (dict_get task ''log'' = None \<and> entries = []
                   \<or> dict_get task ''log'' = Some (PList entries))
                \<and> dict_get task' ''log'' =
                    Some (PList (entries @
                      [PDict [(''timestamp'', PStr timestamp), (''entry'', PStr log_entry)]]))))"
  proof (cases "update_matched_task new_status log_entry updated_at timestamp task")
    case (Inl e)
    with update_matched_task_cases [of log_entry task new_status updated_at timestamp]
    have "log_entry \<noteq> []
        \<and> (\<exists>v. dict_get task ''log'' = Some v \<and> (\<forall>entries. v \<noteq> PList entries))
        \<and> e = AttributeError"
      by simp
    with Inl show ?thesis unfolding u by simp
  next
    case (Inr task')
    with update_matched_task_cases [of log_entry task new_status updated_at timestamp]
    have "dict_get task' ''status'' = Some (PStr new_status)
          \<and> dict_get task' ''updated_at'' = Some (PStr updated_at)
          \<and> (\<forall>k. k \<noteq> ''status'' \<and> k \<noteq> ''updated_at'' \<and> k \<noteq> ''log'' \<longrightarrow>
                 dict_get task' k = dict_get task k)
          \<and> (if log_entry = [] then dict_get task' ''log'' = dict_get task ''log''
              else \<exists>entries.
                (dict_get task ''log'' = None \<and> entries = []
                   \<or> dict_get task ''log'' = Some (PList entries))
                \<and> dict_get task' ''log'' =
                    Some (PList (entries @
                      [PDict [(''timestamp'', PStr timestamp), (''entry'', PStr log_entry)]])))"
      by simp
    with Inr show ?thesis unfolding u by (intro disjI2 exI [of _ task']) simp
  qed
qed


theorem update_task_status_frame_witness:
  "list_all (\<lambda>task. dict_get task ''id'' \<noteq> Some (PStr ''auth-9''))
      (load_todos (Some example_todos))
   \<and> update_task_status (Some example_todos) ''auth-9'' ''completed'' ''done''
        ''2024-01-02T10:00:00'' ''2024-01-02T10:00:01'' =
        Inr (Some (load_todos (Some example_todos)))
   \<and> load_todos (Some example_todos) =
        take 1 example_todos @ example_todos ! 1 # drop 2 example_todos
   \<and> list_all (\<lambda>task. dict_get task ''id'' \<noteq> Some (PStr ''auth-5'')) (take 1 example_todos)
   \<and> dict_get (example_todos ! 1) ''id'' = Some (PStr ''auth-5'')
   \<and> (\<exists>task'.
         update_task_status (Some example_todos) ''auth-5'' ''completed'' ''done''
           ''2024-01-02T10:00:00'' ''2024-01-02T10:00:01'' =
           Inr (Some (take 1 example_todos @ task' # drop 2 example_todos))
         \<and> dict_get task' ''status'' = Some (PStr ''completed'')
         \<and> dict_get task' ''updated_at'' = Some (PStr ''2024-01-02T10:00:00'')
         \<and> (\<forall>k. k \<noteq> ''status'' \<and> k \<noteq> ''updated_at'' \<and> k \<noteq> ''log'' \<longrightarrow>
                dict_get task' k = dict_get (example_todos ! 1) k)
         \<and> dict_get task' ''log'' =
             Some (PList [PDict [(''timestamp'', PStr ''2024-01-02T10:00:01''),
                                 (''entry'', PStr ''done'')]]))"
proof -
  have h1: "list_all (\<lambda>task. dict_get task ''id'' \<noteq> Some (PStr ''auth-9''))
      (load_todos (Some example_todos))"
    by (simp add: example_todos_def load_todos_def)
  have h2: "load_todos (Some example_todos) =
        take 1 example_todos @ example_todos ! 1 # drop 2 example_todos
      \<and> list_all (\<lambda>task. dict_get task ''id'' \<noteq> Some (PStr ''auth-5'')) (take 1 example_todos)
      \<and> dict_get (example_todos ! 1) ''id'' = Some (PStr ''auth-5'')"
    by (simp add: example_todos_def load_todos_def)
  have h3: "dict_get (example_todos ! 1) ''log'' = None"
    by (simp add: example_todos_def)
  have n: "''done'' \<noteq> ([] :: string)" by simp
  note a = update_task_status_frame
    [where todos_file = "Some example_todos" and task_id = "''auth-9''"
       and new_status = "''completed''" and log_entry = "''done''"
       and updated_at = "''2024-01-02T10:00:00''" and timestamp = "''2024-01-02T10:00:01''",
     THEN conjunct1, rule_format, OF h1]
  note b = update_task_status_frame
    [where todos_file = "Some example_todos" and task_id = "''auth-5''"
       and new_status = "''completed''" and log_entry = "''done''"
       and updated_at = "''2024-01-02T10:00:00''" and timestamp = "''2024-01-02T10:00:01''"
       and before = "take 1 example_todos" and task = "example_todos ! 1"
       and after = "drop 2 example_todos",
     THEN conjunct2, rule_format, OF h2]
  from b h3 n have "\<exists>task'.
         update_task_status (Some example_todos) ''auth-5'' ''completed'' ''done''
           ''2024-01-02T10:00:00'' ''2024-01-02T10:00:01'' =
           Inr (Some (take 1 example_todos @ task' # drop 2 example_todos))
         \<and> dict_get task' ''status'' = Some (PStr ''completed'')
         \<and> dict_get task' ''updated_at'' = Some (PStr ''2024-01-02T10:00:00'')
         \<and> (\<forall>k. k \<noteq> ''status'' \<and> k \<noteq> ''updated_at'' \<and> k \<noteq> ''log'' \<longrightarrow>
                dict_get task' k = dict_get (example_todos ! 1) k)
         \<and> dict_get task' ''log'' =
             Some (PList [PDict [(''timestamp'', PStr ''2024-01-02T10:00:01''),
                                 (''entry'', PStr ''done'')]])"
    by (simp only: n h3 option.simps if_False simp_thms append_Nil ex_simps)
  with h1 a h2 show ?thesis by (intro conjI) simp_all
qed

section \<open>Purity\<close>

lemma list_append_frame:
  "list_append h a x = Some h' \<Longrightarrow> length h' = length h \<and> (n \<le> a \<longrightarrow> take n h' = take n h)"
  by (auto simp: list_append_def bind_eq_Some_conv)

lemma set_add_frame:
  "set_add h a x = Some h' \<Longrightarrow> length h' = length h \<and> (n \<le> a \<longrightarrow> take n h' = take n h)"
  by (auto simp: set_add_def bind_eq_Some_conv)

lemma dict_delitem_frame:
  "dict_delitem h a k = Some h' \<Longrightarrow> length h' = length h \<and> (n \<le> a \<longrightarrow> take n h' = take n h)"
proof -
  assume a: "dict_delitem h a k = Some h'"
  then obtain d where d: "get_dict h a = Some d" by (auto simp: dict_delitem_def bind_eq_Some_conv)
  show ?thesis
  proof (cases "dict_del d k")
    case (Inl e)
    with a d show ?thesis by (simp add: dict_delitem_def)
  next
    case (Inr d')
    with a d have "h' = h[a := Dict d']" by (simp add: dict_delitem_def)
    then show ?thesis by simp
  qed
qed

lemma dict_setitem_frame:
  "dict_setitem h a k v = Some h' \<Longrightarrow> length h' = length h \<and> (n \<le> a \<longrightarrow> take n h' = take n h)"
  by (auto simp: dict_setitem_def bind_eq_Some_conv)

lemma scan_heap_frame:
  "scan_heap snapshot cs co rem h = Some h' \<Longrightarrow> n \<le> cs \<Longrightarrow> n \<le> co \<Longrightarrow> n \<le> rem \<Longrightarrow>
     length h' = length h \<and> take n h' = take n h"
proof (induction snapshot arbitrary: h)
  case Nil
  then show ?case by simp
next
  case (Cons a snapshot)
  obtain k item where a: "a = (k, item)" by (cases a)
  from Cons.prems(1) a obtain i da deps c where
    r: "get_item h item = Some (i, da)" "get_strs h da = Some deps" "get_set h co = Some c"
    by (auto simp: bind_eq_Some_conv)
  show ?case
  proof (cases "list_all (\<lambda>dep. dep \<in> c) deps")
    case True
    with Cons.prems(1) a r obtain h1 h2 h3 where
      s: "list_append h cs k = Some h1" "set_add h1 co k = Some h2"
        "dict_delitem h2 rem k = Some h3" "scan_heap snapshot cs co rem h3 = Some h'"
      by (auto simp: bind_eq_Some_conv)
    from list_append_frame [OF s(1), of n] set_add_frame [OF s(2), of n]
      dict_delitem_frame [OF s(3), of n] Cons.IH [OF s(4) Cons.prems(2,3,4)] Cons.prems(2,3,4)
    show ?thesis by simp
  next
    case False
    with Cons.prems(1) a r have "scan_heap snapshot cs co rem h = Some h'" by simp
    from Cons.IH [OF this Cons.prems(2,3,4)] show ?thesis .
  qed
qed

lemma while_remaining_heap_frame:
  "while_remaining_heap pg stage h = Some h' \<Longrightarrow> take pg h' = take pg h"
proof (induction pg stage h arbitrary: h' rule: while_remaining_heap.induct)
  case (1 pg stage h)
  from "1.prems" obtain remaining where r: "get_dict h (pg + 1) = Some remaining"
    by (subst (asm) while_remaining_heap.simps) (auto simp: bind_eq_Some_conv)
  then have rl: "pg + 1 < length h" by (auto dest: get_dict_SomeD)
  show ?case
  proof (cases "remaining = []")
    case True
    with "1.prems" r show ?thesis
      by (subst (asm) while_remaining_heap.simps) simp
  next
    case ne: False
    from "1.prems" r ne obtain h2 current_stage where
      s: "scan_heap remaining (length h) (pg + 2) (pg + 1) (h @ [StrList []]) = Some h2"
      and c: "get_strs h2 (length h) = Some current_stage"
      by (subst (asm) while_remaining_heap.simps) (auto simp: bind_eq_Some_conv)
    from scan_heap_frame [OF s, of pg] rl have f2: "take pg h2 = take pg h" by simp
    show ?thesis
    proof (cases "current_stage = []")
      case placed: False
      from "1.prems" r ne s c placed obtain h3 where
        p: "dict_setitem h2 pg (stage_key stage) (length h) = Some h3"
        and w: "while_remaining_heap pg (stage + 1) h3 = Some h'"
        by (subst (asm) while_remaining_heap.simps) (auto simp: bind_eq_Some_conv)
      from "1.IH"(1) [OF r ne s c placed p w] dict_setitem_frame [OF p, of pg] f2
      show ?thesis by simp
    next
      case none: True
      from "1.prems" r ne s c none obtain remaining' where
        r': "get_dict h2 (pg + 1) = Some remaining'"
        by (subst (asm) while_remaining_heap.simps) (auto simp: bind_eq_Some_conv)
      show ?thesis
      proof (cases "remaining' = []")
        case True
        with "1.prems" r ne s c none r' have w: "while_remaining_heap pg stage h2 = Some h'"
          by (subst (asm) while_remaining_heap.simps) (auto simp: bind_eq_Some_conv)
        from none have n': "\<not> current_stage \<noteq> []" by simp
        from True have t': "\<not> remaining' \<noteq> []" by simp
        from "1.IH"(3) [OF r ne s c n' r' t' w] f2 show ?thesis by simp
      next
        case ne': False
        from "1.prems" r ne s c none r' ne' obtain item_id h3 h4 h5 h6 where
          k: "first_key_heap remaining' = Some item_id"
          and a: "list_append h2 (length h) item_id = Some h3"
          and b: "set_add h3 (pg + 2) item_id = Some h4"
          and d: "dict_delitem h4 (pg + 1) item_id = Some h5"
          and p: "dict_setitem h5 pg (stage_key stage) (length h) = Some h6"
          and w: "while_remaining_heap pg (stage + 1) h6 = Some h'"
          by (subst (asm) while_remaining_heap.simps) (auto simp: bind_eq_Some_conv)
        from none have n': "\<not> current_stage \<noteq> []" by simp
        from "1.IH"(2) [OF r ne s c n' r' ne' k a b d p w]
          list_append_frame [OF a, of pg] set_add_frame [OF b, of pg]
          dict_delitem_frame [OF d, of pg] dict_setitem_frame [OF p, of pg] rl f2
        show ?thesis by simp
      qed
    qed
  qed
qed

lemma partition_heap_frame:
  "partition_heap h items = Some (h', groups) \<Longrightarrow> take (length h) h' = h"
proof -
  assume "partition_heap h items = Some (h', groups)"
  then obtain by_id where
    "while_remaining_heap (length h) 0 (h @ [Dict []] @ [Dict by_id] @ [StrSet {}]) = Some h'"
    by (auto simp: partition_heap_def bind_eq_Some_conv Let_def)
  from while_remaining_heap_frame [OF this] show ?thesis by simp
qed

lemma same_except_refl: "same_except W h h"
  by (simp add: same_except_def)

lemma same_except_trans:
  "same_except W h h' \<Longrightarrow> same_except W' h' h'' \<Longrightarrow> same_except (W \<union> W') h h''"
  by (simp add: same_except_def)

lemma same_except_mono: "same_except W h h' \<Longrightarrow> W \<subseteq> W' \<Longrightarrow> same_except W' h h'"
  by (auto simp: same_except_def)

lemma same_except_update: "same_except {a} h (h[a := obj])"
  by (simp add: same_except_def)

lemma same_except_take:
  assumes "same_except W h h'" and "\<forall>w\<in>W. n \<le> w"
  shows "take n h' = take n h"
proof (rule nth_equalityI)
  show "length (take n h') = length (take n h)" using assms(1) by (simp add: same_except_def)
next
  fix i assume "i < length (take n h')"
  then have "i < n" by simp
  with assms(2) have "i \<notin> W" by auto
  with assms(1) \<open>i < n\<close> show "take n h' ! i = take n h ! i" by (simp add: same_except_def)
qed

lemma same_except_get:
  assumes "same_except W h h'" and "a \<notin> W"
  shows "get_strs h' a = get_strs h a" and "get_set h' a = get_set h a"
    and "get_dict h' a = get_dict h a" and "get_item h' a = get_item h a"
  using assms by (simp_all add: same_except_def get_strs_def get_set_def get_dict_def get_item_def)

lemma list_append_eq:
  "get_strs h a = Some xs \<Longrightarrow> list_append h a x = Some (h[a := StrList (xs @ [x])])"
  by (simp add: list_append_def)

lemma set_add_eq: "get_set h a = Some s \<Longrightarrow> set_add h a x = Some (h[a := StrSet (insert x s)])"
  by (simp add: set_add_def)

lemma dict_delitem_eq:
  "get_dict h a = Some d \<Longrightarrow> dict_del d k = Inr d' \<Longrightarrow> dict_delitem h a k = Some (h[a := Dict d'])"
  by (simp add: dict_delitem_def)

lemma dict_setitem_eq:
  "get_dict h a = Some d \<Longrightarrow> dict_setitem h a k v = Some (h[a := Dict (dict_set d k v)])"
  by (simp add: dict_setitem_def)

lemma take_get:
  assumes "a < n"
  shows "get_item (take n h) a = get_item h a" and "get_strs (take n h) a = get_strs h a"
  using assms by (auto simp: get_item_def get_strs_def)

lemma get_item_take_SomeD: "get_item (take n h) a = Some v \<Longrightarrow> a < n"
  by (auto simp: get_item_def split: if_splits)

lemma get_strs_take_SomeD: "get_strs (take n h) a = Some v \<Longrightarrow> a < n"
  by (auto simp: get_strs_def split: if_splits)

lemma item_value_take:
  assumes "item_value (take n h) a = Some (i, ds)"
  shows "\<exists>da. a < n \<and> da < n \<and> get_item h a = Some (i, da) \<and> get_strs h da = Some ds"
proof -
  from assms obtain da where g: "get_item (take n h) a = Some (i, da)"
    "get_strs (take n h) da = Some ds"
    by (auto simp: item_value_def bind_eq_Some_conv)
  from g(1) have a: "a < n" by (rule get_item_take_SomeD)
  from g(2) have d: "da < n" by (rule get_strs_take_SomeD)
  from g a d show ?thesis by (auto simp: take_get)
qed

lemma deps_view_Nil: "deps_view h [] = Some []"
  by (simp add: deps_view_def)

lemma deps_view_Cons:
  "deps_view h ((k, a) # d) = Some V \<longleftrightarrow>
     (\<exists>i ds V'. item_value h a = Some (i, ds) \<and> deps_view h d = Some V' \<and> V = (k, ds) # V')"
  by (auto simp: deps_view_def split: option.splits)

lemma deps_view_keys: "deps_view h d = Some V \<Longrightarrow> map fst V = map fst d"
proof (induction d arbitrary: V)
  case Nil
  then show ?case by (simp add: deps_view_Nil)
next
  case (Cons a d)
  obtain k x where a: "a = (k, x)" by (cases a)
  from Cons.prems obtain i ds V' where "deps_view h d = Some V'" "V = (k, ds) # V'"
    unfolding a deps_view_Cons by blast
  with Cons.IH [of V'] a show ?case by simp
qed

lemma scan_heap_eq:
  assumes "distinct (map fst snapshot)" and "distinct (map fst remd)"
    and "fst ` set snapshot \<subseteq> fst ` set remd"
    and "deps_view (take n h) snapshot = Some V"
    and "n \<le> cs" and "n \<le> co" and "n \<le> rem"
    and "get_strs h cs = Some acc" and "get_set h co = Some c" and "get_dict h rem = Some remd"
  shows "\<exists>h'. scan_heap snapshot cs co rem h = Some h'
     \<and> same_except {cs, co, rem} h h'
     \<and> get_strs h' cs = Some (acc @ ready_ids V c)
     \<and> get_set h' co = Some (c \<union> set (ready_ids V c))
     \<and> get_dict h' rem = Some (filter (\<lambda>kv. fst kv \<notin> set (ready_ids V c)) remd)"
  using assms
proof (induction snapshot arbitrary: h V acc c remd)
  case Nil
  then show ?case by (simp add: deps_view_Nil same_except_refl)
next
  case (Cons a snapshot)
  obtain k item where a: "a = (k, item)" by (cases a)
  from Cons.prems(4) obtain i ds V' where
    iv: "item_value (take n h) item = Some (i, ds)"
    and V': "deps_view (take n h) snapshot = Some V'" and V: "V = (k, ds) # V'"
    unfolding a deps_view_Cons by blast
  from item_value_take [OF iv] obtain da where
    g: "get_item h item = Some (i, da)" "get_strs h da = Some ds" by blast
  from Cons.prems(1) a have di: "distinct (map fst snapshot)" and kn: "k \<notin> fst ` set snapshot"
    by simp_all
  have sub: "fst ` set snapshot \<subseteq> fst ` set remd" using Cons.prems(3) by simp
  show ?case
  proof (cases "list_all (\<lambda>dep. dep \<in> c) ds")
    case False
    from Cons.IH [OF di Cons.prems(2) sub V' Cons.prems(5-10)] obtain h' where
      "scan_heap snapshot cs co rem h = Some h'" "same_except {cs, co, rem} h h'"
      "get_strs h' cs = Some (acc @ ready_ids V' c)"
      "get_set h' co = Some (c \<union> set (ready_ids V' c))"
      "get_dict h' rem = Some (filter (\<lambda>kv. fst kv \<notin> set (ready_ids V' c)) remd)"
      by blast
    with False a g Cons.prems(9) V show ?thesis by simp
  next
    case True
    let ?r1 = "filter (\<lambda>kv. fst kv \<noteq> k) remd"
    let ?p = "ready_ids V' (insert k c)"
    have ne: "cs \<noteq> rem" "co \<noteq> cs" "co \<noteq> rem"
      using Cons.prems(8,9,10) by (auto dest!: get_dict_SomeD get_strs_SomeD get_set_SomeD)
    let ?h1 = "h[cs := StrList (acc @ [k])]"
    let ?h2 = "?h1[co := StrSet (insert k c)]"
    let ?h3 = "?h2[rem := Dict ?r1]"
    from Cons.prems(8,9,10) have len: "cs < length h" "co < length h" "rem < length h"
      by (auto dest: get_dict_SomeD get_strs_SomeD get_set_SomeD)
    have s1: "list_append h cs k = Some ?h1" using Cons.prems(8) by (rule list_append_eq)
    have c1: "get_set ?h1 co = Some c" using Cons.prems(9) ne by (simp add: get_set_update)
    then have s2: "set_add ?h1 co k = Some ?h2" by (rule set_add_eq)
    have d2: "get_dict ?h2 rem = Some remd"
      using Cons.prems(10) ne by (simp add: get_dict_update)
    from Cons.prems(3) a have "k \<in> fst ` set remd" by simp
    with Cons.prems(2) have dd: "dict_del remd k = Inr ?r1" by (rule dict_del_present)
    from d2 dd have s3: "dict_delitem ?h2 rem k = Some ?h3" by (rule dict_delitem_eq)
    have se: "same_except {cs, co, rem} h ?h3" by (simp add: same_except_def)
    then have tk: "take n ?h3 = take n h"
      using Cons.prems(5,6,7) by (intro same_except_take [of "{cs, co, rem}"]) auto
    have d1: "distinct (map fst ?r1)" using Cons.prems(2) by (rule distinct_map_filter)
    from kn sub have sub1: "fst ` set snapshot \<subseteq> fst ` set ?r1" by (rule keys_filter_neq)
    have g3: "get_strs ?h3 cs = Some (acc @ [k])" "get_set ?h3 co = Some (insert k c)"
      "get_dict ?h3 rem = Some ?r1"
      using ne len by (simp_all add: get_strs_update get_set_update get_dict_update)
    have V3: "deps_view (take n ?h3) snapshot = Some V'" using V' by (simp only: tk)
    from Cons.IH [OF di d1 sub1 V3 Cons.prems(5,6,7) g3] obtain h' where
      h': "scan_heap snapshot cs co rem ?h3 = Some h'" "same_except {cs, co, rem} ?h3 h'"
      "get_strs h' cs = Some ((acc @ [k]) @ ?p)"
      "get_set h' co = Some (insert k c \<union> set ?p)"
      "get_dict h' rem = Some (filter (\<lambda>kv. fst kv \<notin> set ?p) ?r1)"
      by blast
    have p: "ready_ids V c = k # ?p" using True V by simp
    have "scan_heap (a # snapshot) cs co rem h = Some h'"
      using True a g Cons.prems(9) s1 s2 s3 h'(1) by simp
    moreover have "same_except {cs, co, rem} h h'"
      using same_except_trans [OF se h'(2)] by simp
    ultimately show ?thesis using h'(3,4,5) by (simp add: p)
  qed
qed

lemma those_dict_set:
  "those (map (\<lambda>(k, a). map_option (Pair k) (g a)) d) = Some G \<Longrightarrow> g v = Some p \<Longrightarrow>
     those (map (\<lambda>(k, a). map_option (Pair k) (g a)) (dict_set d key v)) = Some (dict_set G key p)"
proof (induction d arbitrary: G)
  case Nil
  then show ?case by simp
next
  case (Cons x d)
  obtain k a where x: "x = (k, a)" by (cases x)
  from Cons.prems(1) obtain q G' where
    q: "g a = Some q" "those (map (\<lambda>(k, a). map_option (Pair k) (g a)) d) = Some G'"
      "G = (k, q) # G'"
    by (auto simp: x split: option.splits)
  show ?case
  proof (cases "k = key")
    case True
    with q Cons.prems(2) show ?thesis by (simp add: x)
  next
    case False
    with q Cons.IH [OF q(2) Cons.prems(2)] show ?thesis by (simp add: x)
  qed
qed

lemma groups_at_same:
  assumes "get_dict h' pg = get_dict h pg" and "get_dict h pg = Some pgd"
    and "\<forall>ka\<in>set pgd. get_strs h' (snd ka) = get_strs h (snd ka)"
  shows "groups_at h' pg = groups_at h pg"
proof -
  have "map (\<lambda>(k, a). map_option (Pair k) (get_strs h' a)) pgd =
      map (\<lambda>(k, a). map_option (Pair k) (get_strs h a)) pgd"
    using assms(3) by (intro map_cong) auto
  then have "those (map (\<lambda>(k, a). map_option (Pair k) (get_strs h' a)) pgd) =
      those (map (\<lambda>(k, a). map_option (Pair k) (get_strs h a)) pgd)"
    by (simp only:)
  then show ?thesis unfolding groups_at_def assms(1) assms(2) by simp
qed

lemma groups_at_setitem:
  assumes "groups_at h pg = Some G" and "get_dict h pg = Some pgd" and "get_strs h cs = Some p"
  shows "groups_at (h[pg := Dict (dict_set pgd key cs)]) pg = Some (dict_set G key p)"
proof -
  let ?h' = "h[pg := Dict (dict_set pgd key cs)]"
  from assms(2) have pl: "pg < length h" "h ! pg = Dict pgd" by (auto dest: get_dict_SomeD)
  have same: "get_strs ?h' a = get_strs h a" for a
    using pl by (cases "a = pg") (simp_all add: get_strs_def)
  from assms(1,2) have "those (map (\<lambda>(k, a). map_option (Pair k) (get_strs h a)) pgd) = Some G"
    by (simp add: groups_at_def)
  from those_dict_set [OF this assms(3), of key]
  show ?thesis using pl by (simp add: groups_at_def get_dict_update same)
qed

lemma deps_view_filter:
  "deps_view h d = Some V \<Longrightarrow>
     deps_view h (filter (\<lambda>kv. P (fst kv)) d) = Some (filter (\<lambda>kv. P (fst kv)) V)"
proof (induction d arbitrary: V)
  case Nil
  then show ?case by (simp add: deps_view_Nil)
next
  case (Cons x d)
  obtain k a where x: "x = (k, a)" by (cases x)
  from Cons.prems obtain i ds V' where
    v: "item_value h a = Some (i, ds)" "deps_view h d = Some V'" "V = (k, ds) # V'"
    unfolding x deps_view_Cons by blast
  from Cons.IH [OF v(2)] v show ?case by (simp add: x deps_view_Cons)
qed

lemma dict_set_subset: "set (dict_set d k v) \<subseteq> insert (k, v) (set d)"
  by (induction d) (auto split: if_splits)

lemma get_append:
  assumes "a < length h"
  shows "get_dict (h @ xs) a = get_dict h a" and "get_set (h @ xs) a = get_set h a"
    and "get_strs (h @ xs) a = get_strs h a"
  using assms by (simp_all add: get_dict_def get_set_def get_strs_def nth_append)

lemma groups_at_SomeD:
  assumes "groups_at h pg = Some G" and "get_dict h pg = Some pgd" and "ka \<in> set pgd"
  shows "\<exists>p. get_strs h (snd ka) = Some p"
proof -
  from assms(1,2) have t: "those (map (\<lambda>(k, a). map_option (Pair k) (get_strs h a)) pgd) = Some G"
    by (simp add: groups_at_def)
  have "those (map f xs) = Some ys \<Longrightarrow> x \<in> set xs \<Longrightarrow> \<exists>y. f x = Some y" for f :: "'x \<Rightarrow> 'y option"
    and xs ys x
    by (induction xs arbitrary: ys) (auto split: option.splits)
  from this [OF t assms(3)] show ?thesis by (cases ka) auto
qed

lemma first_key_heap_Cons: "first_key_heap ((k, a) # d) = Some k"
  by (simp add: first_key_heap_def)

lemma while_remaining_heap_eq:
  assumes "get_dict h (pg + 1) = Some remd" and "distinct (map fst remd)"
    and "deps_view (take pg h) remd = Some V" and "get_set h (pg + 2) = Some c"
    and "get_dict h pg = Some pgd" and "groups_at h pg = Some G"
    and "\<forall>ka\<in>set pgd. pg + 3 \<le> snd ka" and "task_deps rv = V"
  shows "\<exists>h' G'. while_remaining_heap pg stage h = Some h' \<and> groups_at h' pg = Some G'
     \<and> while_remaining_tasks (G, stage, rv, c) = Inr G'"
  using assms
proof (induction "length remd" arbitrary: h remd V c pgd G rv stage rule: less_induct)
  case less
  note r = less.prems(1) and dr = less.prems(2) and dv = less.prems(3) and gc = less.prems(4)
    and gp = less.prems(5) and gg = less.prems(6) and pa = less.prems(7) and rv = less.prems(8)
  have keys: "map fst rv = map fst remd"
    using deps_view_keys [OF dv] task_deps_keys [of rv] rv by simp
  have drv: "distinct (map fst rv)" using dr by (simp only: keys)
  show ?case
  proof (cases "remd = []")
    case True
    with keys have "rv = []" by simp
    then have "while_remaining_tasks (G, stage, rv, c) = Inr G"
      by (subst while_remaining_tasks.simps) simp
    moreover have "while_remaining_heap pg stage h = Some h"
      using r True by (subst while_remaining_heap.simps) simp
    ultimately show ?thesis using gg by simp
  next
    case ne: False
    with keys have nrv: "rv \<noteq> []" by auto
    let ?cs = "length h"
    let ?h1 = "h @ [StrList []]"
    let ?p = "ready_ids V c"
    from gc have l2: "pg + 2 < length h" by (auto dest: get_set_SomeD)
    have g1: "get_strs ?h1 ?cs = Some []" "get_set ?h1 (pg + 2) = Some c"
      "get_dict ?h1 (pg + 1) = Some remd" "get_dict ?h1 pg = Some pgd"
      using l2 gc r gp by (simp_all add: get_append) (simp add: get_strs_def)
    have dv1: "deps_view (take pg ?h1) remd = Some V" using dv l2 by simp
    have "\<exists>h2. scan_heap remd ?cs (pg + 2) (pg + 1) ?h1 = Some h2
       \<and> same_except {?cs, pg + 2, pg + 1} ?h1 h2
       \<and> get_strs h2 ?cs = Some ([] @ ?p)
       \<and> get_set h2 (pg + 2) = Some (c \<union> set ?p)
       \<and> get_dict h2 (pg + 1) = Some (filter (\<lambda>kv. fst kv \<notin> set ?p) remd)"
      using dr dr _ dv1 _ _ _ g1(1,2,3) by (rule scan_heap_eq) (use l2 in simp_all)
    then obtain h2 where
      s: "scan_heap remd ?cs (pg + 2) (pg + 1) ?h1 = Some h2"
      and se: "same_except {?cs, pg + 2, pg + 1} ?h1 h2"
      and g2: "get_strs h2 ?cs = Some ?p" "get_set h2 (pg + 2) = Some (c \<union> set ?p)"
        "get_dict h2 (pg + 1) = Some (filter (\<lambda>kv. fst kv \<notin> set ?p) remd)"
      by auto
    have old: "snd ka < length h \<and> pg + 3 \<le> snd ka" if "ka \<in> set pgd" for ka
    proof -
      from groups_at_SomeD [OF gg gp that] obtain q where "get_strs h (snd ka) = Some q" by blast
      then have "snd ka < length h" by (auto dest: get_strs_SomeD)
      with pa that show ?thesis by auto
    qed
    have gp2: "get_dict h2 pg = Some pgd"
      using same_except_get(3) [OF se, of pg] g1(4) l2 by simp
    have strs2: "get_strs h2 (snd ka) = get_strs h (snd ka)" if "ka \<in> set pgd" for ka
    proof -
      from old [OF that] have "snd ka \<notin> {?cs, pg + 2, pg + 1}" by auto
      from same_except_get(1) [OF se this] old [OF that] show ?thesis by (simp add: get_append)
    qed
    have gg2: "groups_at h2 pg = Some G"
    proof -
      have "groups_at h2 pg = groups_at h pg"
        using gp2 gp strs2 by (intro groups_at_same) auto
      with gg show ?thesis by simp
    qed
    have tk2: "take pg h2 = take pg h"
    proof -
      have "take pg h2 = take pg ?h1" using se by (rule same_except_take) (use l2 in auto)
      then show ?thesis using l2 by simp
    qed
    have len2: "length h2 = Suc (length h)" using se by (simp add: same_except_def)
    have sub: "set ?p \<subseteq> set (map fst remd)"
      using ready_ids_subset [of V c] deps_view_keys [OF dv] by (metis list.set_map)
    show ?thesis
    proof (cases "?p = []")
      case placed: False
      let ?remd' = "filter (\<lambda>kv. fst kv \<notin> set ?p) remd"
      let ?rv' = "filter (\<lambda>kv. fst kv \<notin> set ?p) rv"
      let ?pgd' = "dict_set pgd (stage_key stage) ?cs"
      let ?h3 = "h2[pg := Dict ?pgd']"
      have s3: "dict_setitem h2 pg (stage_key stage) ?cs = Some ?h3"
        using gp2 by (rule dict_setitem_eq)
      have wh: "while_remaining_heap pg stage h = while_remaining_heap pg (stage + 1) ?h3"
        using r ne s g2(1) placed s3 by (subst while_remaining_heap.simps) simp
      have wv: "while_remaining_tasks (G, stage, rv, c) =
          while_remaining_tasks (dict_set G (stage_key stage) ?p, Suc stage, ?rv', c \<union> set ?p)"
        by (subst while_remaining_tasks_step [OF drv nrv]) (simp add: rv placed)
      define k where "k = hd ?p"
      have "k \<in> set ?p" unfolding k_def using placed by (rule hd_in_set)
      with sub obtain kv where kv: "kv \<in> set remd" "fst kv = k" by auto
      with \<open>k \<in> set ?p\<close> have "\<not> fst kv \<notin> set ?p" by simp
      with kv(1) have less': "length ?remd' < length remd" by (rule length_filter_less)
      have i1: "get_dict ?h3 (pg + 1) = Some ?remd'"
        using g2(3) by (simp add: get_dict_update)
      have i2: "distinct (map fst ?remd')" using dr by (rule distinct_map_filter)
      have "take pg ?h3 = take pg h" using tk2 by simp
      then have i3: "deps_view (take pg ?h3) ?remd' = Some (filter (\<lambda>kv. fst kv \<notin> set ?p) V)"
        using deps_view_filter [OF dv, of "\<lambda>k. k \<notin> set ?p"] by simp
      have i4: "get_set ?h3 (pg + 2) = Some (c \<union> set ?p)"
        using g2(2) by (simp add: get_set_update)
      have pl: "pg < length h2" using l2 len2 by simp
      have i5: "get_dict ?h3 pg = Some ?pgd'" using pl by (simp add: get_dict_update)
      have i6: "groups_at ?h3 pg = Some (dict_set G (stage_key stage) ?p)"
        using gg2 gp2 g2(1) by (rule groups_at_setitem)
      have i7: "\<forall>ka\<in>set ?pgd'. pg + 3 \<le> snd ka"
      proof
        fix ka assume "ka \<in> set ?pgd'"
        with dict_set_subset [of pgd "stage_key stage" ?cs]
        have "ka = (stage_key stage, ?cs) \<or> ka \<in> set pgd" by auto
        then show "pg + 3 \<le> snd ka"
        proof
          assume "ka = (stage_key stage, ?cs)"
          with l2 show ?thesis by simp
        next
          assume "ka \<in> set pgd"
          from old [OF this] show ?thesis by simp
        qed
      qed
      have i8: "task_deps ?rv' = filter (\<lambda>kv. fst kv \<notin> set ?p) V"
        using task_deps_filter [of "\<lambda>k. k \<notin> set ?p" rv] rv by simp
      from less.hyps [OF less' i1 i2 i3 i4 i5 i6 i7 i8, of "stage + 1"] wh wv
      show ?thesis by simp
    next
      case none: True
      obtain k a rest where remd: "remd = (k, a) # rest" using ne by (cases remd) auto
      from keys remd obtain t rvrest where rvc: "rv = (k, t) # rvrest" "map fst rvrest = map fst rest"
        by (cases rv) auto
      from dv have "deps_view (take pg h) ((k, a) # rest) = Some V" by (simp only: remd)
      then obtain i ds V' where V: "V = (k, ds) # V'" "deps_view (take pg h) rest = Some V'"
        unfolding deps_view_Cons by blast
      let ?pgd' = "dict_set pgd (stage_key stage) ?cs"
      let ?h3 = "h2[?cs := StrList [k]]"
      let ?h4 = "?h3[pg + 2 := StrSet (insert k c)]"
      let ?h5 = "?h4[pg + 1 := Dict rest]"
      let ?h6 = "?h5[pg := Dict ?pgd']"
      from g2 none have g2': "get_strs h2 ?cs = Some []" "get_set h2 (pg + 2) = Some c"
        "get_dict h2 (pg + 1) = Some remd" by simp_all
      have a3: "list_append h2 ?cs k = Some ?h3" using list_append_eq [OF g2'(1), of k] by simp
      have "get_set ?h3 (pg + 2) = Some c" using g2'(2) l2 by (simp add: get_set_update)
      then have a4: "set_add ?h3 (pg + 2) k = Some ?h4" by (rule set_add_eq)
      have "get_dict ?h4 (pg + 1) = Some remd" using g2'(3) l2 by (simp add: get_dict_update)
      moreover have "dict_del remd k = Inr rest" by (simp add: remd)
      ultimately have a5: "dict_delitem ?h4 (pg + 1) k = Some ?h5" by (rule dict_delitem_eq)
      have gp5: "get_dict ?h5 pg = Some pgd" using gp2 l2 by (simp add: get_dict_update)
      then have a6: "dict_setitem ?h5 pg (stage_key stage) ?cs = Some ?h6" by (rule dict_setitem_eq)
      have fk: "first_key_heap remd = Some k" by (simp add: remd first_key_heap_Cons)
      have wh: "while_remaining_heap pg stage h = while_remaining_heap pg (stage + 1) ?h6"
        using r ne s g2'(1) g2'(3) fk a3 a4 a5 a6
        by (subst while_remaining_heap.simps) simp
      have wv: "while_remaining_tasks (G, stage, rv, c) =
          while_remaining_tasks (dict_set G (stage_key stage) [k], Suc stage, rvrest, insert k c)"
        by (subst while_remaining_tasks_step [OF drv nrv]) (simp add: rv none, simp add: rvc)
      have less': "length rest < length remd" by (simp add: remd)
      have i1: "get_dict ?h6 (pg + 1) = Some rest" using l2 len2 by (simp add: get_dict_update)
      have i2: "distinct (map fst rest)" using dr by (simp add: remd)
      have "take pg ?h6 = take pg h" using tk2 l2 by simp
      then have i3: "deps_view (take pg ?h6) rest = Some V'" using V(2) by simp
      have i4: "get_set ?h6 (pg + 2) = Some (insert k c)"
        using l2 len2 by (simp add: get_set_update)
      have i5: "get_dict ?h6 pg = Some ?pgd'" using l2 len2 by (simp add: get_dict_update)
      have se5: "same_except {?cs, pg + 2, pg + 1} h2 ?h5" by (simp add: same_except_def)
      have strs5: "get_strs ?h5 (snd ka) = get_strs h2 (snd ka)" if "ka \<in> set pgd" for ka
      proof -
        from old [OF that] have "snd ka \<notin> {?cs, pg + 2, pg + 1}" by auto
        from same_except_get(1) [OF se5 this] show ?thesis .
      qed
      have gg5: "groups_at ?h5 pg = Some G"
      proof -
        have "groups_at ?h5 pg = groups_at h2 pg"
          using gp5 gp2 strs5 by (intro groups_at_same) auto
        with gg2 show ?thesis by simp
      qed
      have cs5: "get_strs ?h5 ?cs = Some [k]" using l2 len2 by (simp add: get_strs_update)
      have i6: "groups_at ?h6 pg = Some (dict_set G (stage_key stage) [k])"
        using gg5 gp5 cs5 by (rule groups_at_setitem)
      have i7: "\<forall>ka\<in>set ?pgd'. pg + 3 \<le> snd ka"
      proof
        fix ka assume "ka \<in> set ?pgd'"
        with dict_set_subset [of pgd "stage_key stage" ?cs]
        have "ka = (stage_key stage, ?cs) \<or> ka \<in> set pgd" by auto
        then show "pg + 3 \<le> snd ka"
        proof
          assume "ka = (stage_key stage, ?cs)"
          with l2 show ?thesis by simp
        next
          assume "ka \<in> set pgd"
          from old [OF this] show ?thesis by simp
        qed
      qed
      have i8: "task_deps rvrest = V'" using rv V(1) rvc(1) by (simp add: task_deps_Cons)
      from less.hyps [OF less' i1 i2 i3 i4 i5 i6 i7 i8, of "stage + 1"] wh wv
      show ?thesis by simp
    qed
  qed
qed

lemma deps_view_dict_set:
  "deps_view h d = Some V \<Longrightarrow> item_value h a = Some (i, ds) \<Longrightarrow>
     deps_view h (dict_set d k a) = Some (dict_set V k ds)"
proof (induction d arbitrary: V)
  case Nil
  then show ?case by (simp add: deps_view_Cons deps_view_Nil)
next
  case (Cons x d)
  obtain k' a' where x: "x = (k', a')" by (cases x)
  from Cons.prems(1) obtain i' ds' V' where
    v: "item_value h a' = Some (i', ds')" "deps_view h d = Some V'" "V = (k', ds') # V'"
    unfolding x deps_view_Cons by blast
  from Cons.IH [OF v(2) Cons.prems(2)] v Cons.prems(2) show ?case
    by (simp add: x deps_view_Cons)
qed

lemma items_by_id_eq:
  "those (map (item_value (take n h)) item_list) = Some ivs \<Longrightarrow>
   deps_view (take n h) d0 = Some V0 \<Longrightarrow> distinct (map fst d0) \<Longrightarrow>
     \<exists>d. items_by_id h item_list d0 = Some d \<and> distinct (map fst d)
       \<and> deps_view (take n h) d = Some (foldl (\<lambda>d (k, deps). dict_set d k deps) V0 ivs)"
proof (induction item_list arbitrary: ivs d0 V0)
  case Nil
  then show ?case by simp
next
  case (Cons a item_list)
  from Cons.prems(1) obtain i ds ivs' where
    v: "item_value (take n h) a = Some (i, ds)"
      "those (map (item_value (take n h)) item_list) = Some ivs'" "ivs = (i, ds) # ivs'"
    by (auto split: option.splits)
  from item_value_take [OF v(1)] obtain da where g: "get_item h a = Some (i, da)" by blast
  have "deps_view (take n h) (dict_set d0 i a) = Some (dict_set V0 i ds)"
    using Cons.prems(2) v(1) by (rule deps_view_dict_set)
  moreover have "distinct (map fst (dict_set d0 i a))" using Cons.prems(3) by (rule dict_set_distinct)
  ultimately obtain d where "items_by_id h item_list (dict_set d0 i a) = Some d"
    "distinct (map fst d)"
    "deps_view (take n h) d = Some (foldl (\<lambda>d (k, deps). dict_set d k deps) (dict_set V0 i ds) ivs')"
    using Cons.IH [OF v(2)] by blast
  with g v(3) show ?case by simp
qed

lemma items_value_frame:
  assumes "items_value h items = Some ivs" and "take (length h) h' = h"
  shows "items_value h' items = Some ivs"
proof -
  let ?n = "length h"
  from assms(1) obtain item_list where
    l: "get_items h items = Some item_list" "those (map (item_value h) item_list) = Some ivs"
    by (auto simp: items_value_def bind_eq_Some_conv)
  from l(1) have il: "items < ?n" "h ! items = ItemList item_list"
    by (auto simp: get_items_def split: if_splits pyobj.splits)
  have nth: "h' ! a = h ! a" if "a < ?n" for a
    using that assms(2) by (metis nth_take)
  have len: "?n \<le> length h'" using assms(2) by (metis length_take min.cobounded1)
  have gi: "get_items h' items = Some item_list"
    using il nth [of items] len by (simp add: get_items_def)
  have iv: "item_value h' a = Some v" if "item_value h a = Some v" for a v
  proof -
    obtain i ds where v: "v = (i, ds)" by (cases v)
    from that have "item_value (take ?n h) a = Some (i, ds)" by (simp add: v)
    from item_value_take [OF this] obtain da where
      d: "a < ?n" "da < ?n" "get_item h a = Some (i, da)" "get_strs h da = Some ds" by blast
    from d(1,3) nth [of a] len have "get_item h' a = Some (i, da)" by (simp add: get_item_def)
    moreover from d(2,4) nth [of da] len have "get_strs h' da = Some ds"
      by (simp add: get_strs_def)
    ultimately show ?thesis by (simp add: item_value_def v)
  qed
  have "those (map f xs) = Some ys \<Longrightarrow> (\<And>x y. f x = Some y \<Longrightarrow> g x = Some y) \<Longrightarrow>
      those (map g xs) = Some ys" for f g :: "addr \<Rightarrow> (string \<times> string list) option" and xs ys
    by (induction xs arbitrary: ys) (auto split: option.splits)
  from this [OF l(2) iv] gi show ?thesis by (simp add: items_value_def)
qed

lemma partition_heap_eq:
  assumes "items_value h items = Some ivs"
  shows "\<exists>h' groups g. partition_heap h items = Some (h', groups)
     \<and> take (length h) h' = h \<and> items_value h' items = Some ivs
     \<and> groups_at h' groups = Some g
     \<and> identify_parallel_opportunities (map (\<lambda>(i, deps). new_task i deps) ivs) = Inr g"
proof -
  let ?n = "length h"
  let ?h1 = "h @ [Dict []]"
  let ?tasks = "map (\<lambda>(i, deps). new_task i deps) ivs"
  from assms obtain item_list where
    l: "get_items h items = Some item_list" "those (map (item_value h) item_list) = Some ivs"
    by (auto simp: items_value_def bind_eq_Some_conv)
  from l(1) have gi: "get_items ?h1 items = Some item_list"
    by (auto simp: get_items_def nth_append split: if_splits)
  have "those (map (item_value (take ?n ?h1)) item_list) = Some ivs" using l(2) by simp
  moreover have "deps_view (take ?n ?h1) [] = Some []" by (rule deps_view_Nil)
  ultimately obtain by_id where
    b: "items_by_id ?h1 item_list [] = Some by_id" "distinct (map fst by_id)"
      "deps_view (take ?n ?h1) by_id = Some (foldl (\<lambda>d (k, deps). dict_set d k deps) [] ivs)"
    using items_by_id_eq [of ?n ?h1 item_list ivs "[]" "[]"] by auto
  let ?h3 = "(?h1 @ [Dict by_id]) @ [StrSet {}]"
  have ivs: "map (\<lambda>task. (id_task task, dependencies task)) ?tasks = ivs"
    by (simp add: comp_def new_task_def case_prod_unfold)
  have V: "task_deps (tasks_by_id ?tasks) = foldl (\<lambda>d (k, deps). dict_set d k deps) [] ivs"
    unfolding tasks_by_id_def foldl_task_deps ivs by (simp add: task_deps_Nil)
  have "\<exists>h' G'. while_remaining_heap ?n 0 ?h3 = Some h' \<and> groups_at h' ?n = Some G'
     \<and> while_remaining_tasks ([], 0, tasks_by_id ?tasks, {}) = Inr G'"
  proof (rule while_remaining_heap_eq [where remd = by_id and pgd = "[]"])
    show "get_dict ?h3 (?n + 1) = Some by_id" by (simp add: get_dict_def nth_append)
    show "distinct (map fst by_id)" by (rule b(2))
    show "deps_view (take ?n ?h3) by_id = Some (foldl (\<lambda>d (k, deps). dict_set d k deps) [] ivs)"
      using b(3) by simp
    show "get_set ?h3 (?n + 2) = Some {}" by (simp add: get_set_def nth_append)
    show "get_dict ?h3 ?n = Some []" by (simp add: get_dict_def nth_append)
    show "groups_at ?h3 ?n = Some []" by (simp add: groups_at_def get_dict_def nth_append)
    show "\<forall>ka\<in>set []. ?n + 3 \<le> snd ka" by simp
    show "task_deps (tasks_by_id ?tasks) = foldl (\<lambda>d (k, deps). dict_set d k deps) [] ivs"
      by (rule V)
  qed
  then obtain h' g where
    w: "while_remaining_heap ?n 0 ?h3 = Some h'" "groups_at h' ?n = Some g"
      "identify_parallel_opportunities ?tasks = Inr g"
    unfolding identify_parallel_opportunities_def by blast
  have p: "partition_heap h items = Some (h', ?n)"
    using gi b(1) w(1) by (simp add: partition_heap_def Let_def)
  from partition_heap_frame [OF p] have f: "take ?n h' = h" .
  from assms f have "items_value h' items = Some ivs" by (rule items_value_frame)
  with p f w(2,3) show ?thesis by blast
qed

lemma identify_reads_ids_and_dependencies:
  assumes "map id_task tasks = map id_task tasks'"
    and "map dependencies tasks = map dependencies tasks'"
  shows "identify_parallel_opportunities tasks = identify_parallel_opportunities tasks'"
proof -
  let ?x = "\<lambda>t. new_execution (id_task t) RESEARCH (dependencies t)"
  have i: "map id_exec (map ?x tasks) = map id_task tasks"
    by (simp add: new_execution_def comp_def)
  have d: "map dependencies_exec (map ?x tasks) = map dependencies tasks"
    by (simp add: new_execution_def comp_def)
  have "calculate_parallel_groups (map ?x tasks) = identify_parallel_opportunities tasks"
    using i d by (rule calculate_eq_identify)
  moreover have "calculate_parallel_groups (map ?x tasks) = identify_parallel_opportunities tasks'"
    using i d unfolding assms by (rule calculate_eq_identify)
  ultimately show ?thesis by (simp only:)
qed

text \<open>
  C8. Take two heaps that hold the same sequence of items, by id and dependency list,
  at whatever addresses and with whatever sharing, and any tasks and executions with these
  ids and dependency lists. Both runs of the partitioner return, and the stage mappings they
  build are the same mapping, the one both value-level partitioners return. Each run leaves
  every object that existed before the call as it was; in particular the items read
  after the call as they did before.
\<close>

theorem partitioner_is_pure:
  "items_value h items = Some ivs \<and> items_value h' items' = Some ivs
   \<and> map id_task tasks = map fst ivs \<and> map dependencies tasks = map snd ivs
   \<and> map id_exec executions = map fst ivs \<and> map dependencies_exec executions = map snd ivs \<longrightarrow>
     (\<exists>h1 groups h1' groups' g.
        partition_heap h items = Some (h1, groups)
        \<and> partition_heap h' items' = Some (h1', groups')
        \<and> groups_at h1 groups = Some g \<and> groups_at h1' groups' = Some g
        \<and> take (length h) h1 = h \<and> take (length h') h1' = h'
        \<and> items_value h1 items = Some ivs \<and> items_value h1' items' = Some ivs
        \<and> identify_parallel_opportunities tasks = Inr g
        \<and> calculate_parallel_groups executions = Inr g)"
proof
  let ?tasks = "map (\<lambda>(i, deps). new_task i deps) ivs"
  assume a: "items_value h items = Some ivs \<and> items_value h' items' = Some ivs
   \<and> map id_task tasks = map fst ivs \<and> map dependencies tasks = map snd ivs
   \<and> map id_exec executions = map fst ivs \<and> map dependencies_exec executions = map snd ivs"
  from a partition_heap_eq [of h items ivs] obtain h1 groups g where
    1: "partition_heap h items = Some (h1, groups)" "take (length h) h1 = h"
      "items_value h1 items = Some ivs" "groups_at h1 groups = Some g"
      "identify_parallel_opportunities ?tasks = Inr g"
    by blast
  from a partition_heap_eq [of h' items' ivs] obtain h1' groups' g' where
    2: "partition_heap h' items' = Some (h1', groups')" "take (length h') h1' = h'"
      "items_value h1' items' = Some ivs" "groups_at h1' groups' = Some g'"
      "identify_parallel_opportunities ?tasks = Inr g'"
    by blast
  from 1(5) 2(5) have gg: "g' = g" by simp
  have i: "map id_task ?tasks = map fst ivs"
    by (simp add: comp_def new_task_def case_prod_unfold)
  have d: "map dependencies ?tasks = map snd ivs"
    by (simp add: comp_def new_task_def case_prod_unfold)
  have "identify_parallel_opportunities tasks = identify_parallel_opportunities ?tasks"
    using a i d by (intro identify_reads_ids_and_dependencies) simp_all
  with 1(5) have t: "identify_parallel_opportunities tasks = Inr g" by simp
  have "calculate_parallel_groups executions = identify_parallel_opportunities ?tasks"
    using a i d by (intro calculate_eq_identify) simp_all
  with 1(5) have e: "calculate_parallel_groups executions = Inr g" by simp
  from 1 2 gg t e show "\<exists>h1 groups h1' groups' g.
        partition_heap h items = Some (h1, groups)
        \<and> partition_heap h' items' = Some (h1', groups')
        \<and> groups_at h1 groups = Some g \<and> groups_at h1' groups' = Some g
        \<and> take (length h) h1 = h \<and> take (length h') h1' = h'
        \<and> items_value h1 items = Some ivs \<and> items_value h1' items' = Some ivs
        \<and> identify_parallel_opportunities tasks = Inr g
        \<and> calculate_parallel_groups executions = Inr g"
    by blast
qed

lemmas heap_simps =
  items_value_def item_value_def get_items_def get_item_def get_strs_def get_set_def
  get_dict_def

theorem partitioner_is_pure_witness:
  "items_value diamond_heap 7 =
     Some [(''a'', []), (''b'', [''a'']), (''c'', [''a'']), (''d'', [''b'', ''c''])]
   \<and> items_value diamond_heap' 0 =
     Some [(''a'', []), (''b'', [''a'']), (''c'', [''a'']), (''d'', [''b'', ''c''])]
   \<and> (\<exists>h1 groups h1' groups' g.
        partition_heap diamond_heap 7 = Some (h1, groups)
        \<and> partition_heap diamond_heap' 0 = Some (h1', groups')
        \<and> groups_at h1 groups = Some g \<and> groups_at h1' groups' = Some g
        \<and> take (length diamond_heap) h1 = diamond_heap
        \<and> take (length diamond_heap') h1' = diamond_heap'
        \<and> items_value h1 7 =
            Some [(''a'', []), (''b'', [''a'']), (''c'', [''a'']), (''d'', [''b'', ''c''])]
        \<and> items_value h1' 0 =
            Some [(''a'', []), (''b'', [''a'']), (''c'', [''a'']), (''d'', [''b'', ''c''])]
        \<and> identify_parallel_opportunities
             [new_task ''a'' [], new_task ''b'' [''a''], new_task ''c'' [''a''],
              new_task ''d'' [''b'', ''c'']] = Inr g
        \<and> calculate_parallel_groups
             [new_execution ''a'' RESEARCH [], new_execution ''b'' RESEARCH [''a''],
              new_execution ''c'' RESEARCH [''a''], new_execution ''d'' RESEARCH [''b'', ''c'']] =
             Inr g)"
proof -
  let ?ivs = "[(''a'', []), (''b'', [''a'']), (''c'', [''a'']), (''d'', [''b'', ''c''])]"
  have 1: "items_value diamond_heap 7 = Some ?ivs"
    by (simp add: diamond_heap_def heap_simps)
  have 2: "items_value diamond_heap' 0 = Some ?ivs"
    by (simp add: diamond_heap'_def heap_simps)
  have 3: "map id_task [new_task ''a'' [], new_task ''b'' [''a''], new_task ''c'' [''a''],
              new_task ''d'' [''b'', ''c'']] = map fst ?ivs
    \<and> map dependencies [new_task ''a'' [], new_task ''b'' [''a''], new_task ''c'' [''a''],
              new_task ''d'' [''b'', ''c'']] = map snd ?ivs"
    by (simp add: new_task_def)
  have 4: "map id_exec [new_execution ''a'' RESEARCH [], new_execution ''b'' RESEARCH [''a''],
              new_execution ''c'' RESEARCH [''a''], new_execution ''d'' RESEARCH [''b'', ''c'']] =
            map fst ?ivs
    \<and> map dependencies_exec [new_execution ''a'' RESEARCH [], new_execution ''b'' RESEARCH [''a''],
              new_execution ''c'' RESEARCH [''a''], new_execution ''d'' RESEARCH [''b'', ''c'']] =
            map snd ?ivs"
    by (simp add: new_execution_def)
  from partitioner_is_pure [of diamond_heap 7 ?ivs diamond_heap' 0
      "[new_task ''a'' [], new_task ''b'' [''a''], new_task ''c'' [''a''],
        new_task ''d'' [''b'', ''c'']]"
      "[new_execution ''a'' RESEARCH [], new_execution ''b'' RESEARCH [''a''],
        new_execution ''c'' RESEARCH [''a''], new_execution ''d'' RESEARCH [''b'', ''c'']]"]
    1 2 3 4
  show ?thesis by blast
qed

end
